theory Spec2Isabelle
  imports Main "HOL-Library.Extended_Nat" "HOL-Library.While_Combinator"
begin

section \<open>JavaScript values and outcomes\<close>

text \<open>
  The routing engine of LifeRoute (\<^verbatim>\<open>js/routing.js\<close>) keeps all of its dictionaries in
  plain JavaScript objects. An object is modelled by the map of its own properties together
  with what its prototype is, where the code can change it. A read \<^verbatim>\<open>obj[k]\<close> of a key the
  object does not own falls back to the prototype: for \<^verbatim>\<open>Object.prototype\<close> it yields a
  function for the member names listed in \<open>objectPrototypeKeys\<close>, the prototype object
  itself for \<^verbatim>\<open>__proto__\<close>, and \<^verbatim>\<open>undefined\<close> for every other key. A store
  \<^verbatim>\<open>obj[k] = v\<close> creates or updates an own property, except under the key \<^verbatim>\<open>__proto__\<close>
  while the object still inherits from \<^verbatim>\<open>Object.prototype\<close>: that store runs the
  inherited setter, which replaces the prototype when \<open>v\<close> is an object or \<^verbatim>\<open>null\<close> and
  does nothing when \<open>v\<close> is a number or a string.

  A call either returns a value, throws, or runs forever.
\<close>

datatype jsError = TypeError

datatype 'a outcome = Returns 'a | Throws jsError | Diverges

definition mapOutcome :: "('a \<Rightarrow> 'b) \<Rightarrow> 'a outcome \<Rightarrow> 'b outcome" where
  "mapOutcome f x =
     (case x of Returns a \<Rightarrow> Returns (f a) | Throws err \<Rightarrow> Throws err | Diverges \<Rightarrow> Diverges)"

definition objectPrototypeKeys :: "string list" where
  "objectPrototypeKeys =
     [''constructor'', ''__defineGetter__'', ''__defineSetter__'', ''hasOwnProperty'',
      ''__lookupGetter__'', ''__lookupSetter__'', ''isPrototypeOf'', ''propertyIsEnumerable'',
      ''toString'', ''valueOf'', ''__proto__'', ''toLocaleString'']"

definition inheritedKey :: "string \<Rightarrow> bool" where
  "inheritedKey k = (k \<in> set objectPrototypeKeys)"

text \<open>
  The string-keyed members of \<^verbatim>\<open>Array.prototype\<close> (ECMAScript 2023), all of them
  functions. An array also owns \<^verbatim>\<open>length\<close> and one property per index, whose key is the
  decimal numeral of the index.
\<close>

definition arrayPrototypeKeys :: "string list" where
  "arrayPrototypeKeys =
     [''at'', ''concat'', ''constructor'', ''copyWithin'', ''entries'', ''every'', ''fill'',
      ''filter'', ''find'', ''findIndex'', ''findLast'', ''findLastIndex'', ''flat'',
      ''flatMap'', ''forEach'', ''includes'', ''indexOf'', ''join'', ''keys'', ''lastIndexOf'',
      ''map'', ''pop'', ''push'', ''reduce'', ''reduceRight'', ''reverse'', ''shift'', ''slice'',
      ''some'', ''sort'', ''splice'', ''toLocaleString'', ''toReversed'', ''toSorted'',
      ''toSpliced'', ''toString'', ''unshift'', ''values'', ''with'']"

fun decimal :: "nat \<Rightarrow> string" where
  "decimal n =
     (if n < 10 then [''0123456789'' ! n]
      else decimal (n div 10) @ [''0123456789'' ! (n mod 10)])"

declare decimal.simps [simp del]

definition indexKey :: "string \<Rightarrow> 'a list \<Rightarrow> bool" where
  "indexKey k xs = (k \<in> set (map decimal [0..<length xs]))"

text \<open>
  The values that a read of \<^verbatim>\<open>prev\<close> can give besides \<^verbatim>\<open>null\<close>: a node id, \<^verbatim>\<open>undefined\<close>,
  a function inherited from \<^verbatim>\<open>Object.prototype\<close> (named by its key), or
  \<^verbatim>\<open>Object.prototype\<close> itself. Used as a property key, a value is converted to a string;
  for a built-in function that string is its source text, here in the form V8 prints it.
\<close>

datatype jsval = Str string | Undefined | Member string | ObjectPrototype

definition keyOf :: "jsval \<Rightarrow> string" where
  "keyOf v =
     (case v of
        Str s \<Rightarrow> s
      | Undefined \<Rightarrow> ''undefined''
      | Member k \<Rightarrow>
          ''function '' @ (if k = ''constructor'' then ''Object'' else k) @ ''() { [native code] }''
      | ObjectPrototype \<Rightarrow> ''[object Object]'')"

text \<open>
  The value of \<^verbatim>\<open>obj[k] || ''\<close> for an object whose own values are strings: the own value
  (the empty string when it is falsy), an inherited member, or the empty string.
\<close>

datatype hazVal = HazStr string | Inherited

definition lookupOrEmpty :: "(string \<rightharpoonup> string) \<Rightarrow> string \<Rightarrow> hazVal" where
  "lookupOrEmpty obj k =
     (case obj k of
        Some s \<Rightarrow> HazStr s
      | None \<Rightarrow> if inheritedKey k then Inherited else HazStr '''')"

text \<open>
  Numbers are IEEE 754 doubles. Edge weights are taken to be natural numbers, so every
  number the search handles is a natural number or \<^verbatim>\<open>Infinity\<close>. The sum of two such
  doubles is the double nearest to the exact sum, ties going to the even significand: exact
  for a sum of at most 53 bits, a multiple of \<open>2 ^ (bitlen n - 53)\<close> for a longer one, and
  \<^verbatim>\<open>Infinity\<close> when that multiple reaches \<open>2^1024\<close>.
\<close>

fun bitlen :: "nat \<Rightarrow> nat" where
  "bitlen n = (if n = 0 then 0 else Suc (bitlen (n div 2)))"

declare bitlen.simps [simp del]

definition roundDouble :: "nat \<Rightarrow> enat" where
  "roundDouble n =
     (if bitlen n \<le> 53 then enat n
      else (let q = 2 ^ (bitlen n - 53);
                k = n div q;
                r = n mod q;
                m = (if 2 * r < q \<or> (2 * r = q \<and> even k) then k else k + 1) * q
            in if 1024 < bitlen m then \<infinity> else enat m))"

definition jsAdd :: "nat \<Rightarrow> nat \<Rightarrow> enat" where
  "jsAdd a b = roundDouble (a + b)"

section \<open>data.js: the building\<close>

text \<open>
  A floor definition lists rooms, exits and corridor edges \<^verbatim>\<open>[a, b, cost]\<close>. Rooms and exits
  are kept by their \<^verbatim>\<open>id\<close>, the only field the routing engine reads; label, grid position
  and exit side only feed the renderer. \<^verbatim>\<open>computeCoords\<close> adds pixel coordinates to both
  lists and keeps their order and ids.
\<close>

datatype floorKey = GF | F1 | F2 | F3 | B

record floorDef =
  rooms :: "string list"
  exits :: "string list"
  edges :: "(string \<times> string \<times> nat) list"

definition computeCoords :: "floorDef \<Rightarrow> string list \<times> string list" where
  "computeCoords fd = (rooms fd, exits fd)"

fun BLDG :: "floorKey \<Rightarrow> floorDef" where
  "BLDG GF = \<lparr>
     rooms = [''entrance'', ''reception'', ''control'', ''main_hall'', ''kitchen'',
              ''washroom'', ''stairGF''],
     exits = [''exitA'', ''exitB''],
     edges = [(''entrance'', ''reception'', 1), (''reception'', ''control'', 1),
              (''entrance'', ''main_hall'', 1), (''reception'', ''main_hall'', 1),
              (''control'', ''kitchen'', 1), (''main_hall'', ''kitchen'', 1),
              (''main_hall'', ''washroom'', 1), (''kitchen'', ''stairGF'', 1),
              (''washroom'', ''stairGF'', 1), (''entrance'', ''exitA'', 1),
              (''washroom'', ''exitA'', 1), (''stairGF'', ''exitA'', 1),
              (''control'', ''exitB'', 1), (''reception'', ''exitB'', 1),
              (''kitchen'', ''exitB'', 1)] \<rparr>"
| "BLDG F1 = \<lparr>
     rooms = [''r101'', ''office1'', ''lobby1'', ''wash1'', ''r102'', ''stairF1'', ''storage1''],
     exits = [''stairF1_exit''],
     edges = [(''r101'', ''lobby1'', 1), (''office1'', ''lobby1'', 1),
              (''office1'', ''wash1'', 1), (''lobby1'', ''wash1'', 1),
              (''lobby1'', ''r102'', 1), (''lobby1'', ''stairF1'', 1),
              (''wash1'', ''storage1'', 1), (''r102'', ''stairF1'', 1),
              (''stairF1'', ''storage1'', 1), (''stairF1'', ''stairF1_exit'', 1)] \<rparr>"
| "BLDG F2 = \<lparr>
     rooms = [''r201'', ''kitchen2'', ''lobby2'', ''wash2'', ''r202'', ''stairF2'', ''server''],
     exits = [''stairF2_exit''],
     edges = [(''r201'', ''lobby2'', 1), (''kitchen2'', ''lobby2'', 1),
              (''kitchen2'', ''wash2'', 1), (''lobby2'', ''wash2'', 1),
              (''lobby2'', ''r202'', 1), (''lobby2'', ''stairF2'', 1),
              (''wash2'', ''server'', 1), (''r202'', ''stairF2'', 1),
              (''stairF2'', ''server'', 1), (''stairF2'', ''stairF2_exit'', 1)] \<rparr>"
| "BLDG F3 = \<lparr>
     rooms = [''r301'', ''r303'', ''wash3'', ''lobby3'', ''balcony'', ''r302'', ''stairF3''],
     exits = [''stairF3_exit''],
     edges = [(''r301'', ''wash3'', 1), (''r301'', ''lobby3'', 1), (''r303'', ''lobby3'', 1),
              (''r303'', ''balcony'', 1), (''wash3'', ''lobby3'', 1),
              (''lobby3'', ''balcony'', 1), (''wash3'', ''r302'', 1),
              (''lobby3'', ''stairF3'', 1), (''balcony'', ''stairF3'', 1),
              (''r302'', ''stairF3'', 1), (''stairF3'', ''stairF3_exit'', 1)] \<rparr>"
| "BLDG B = \<lparr>
     rooms = [''storage_b'', ''electrical'', ''parking'', ''generator'', ''stairB''],
     exits = [''emExit'', ''stairB_exit''],
     edges = [(''storage_b'', ''electrical'', 1), (''parking'', ''storage_b'', 1),
              (''stairB'', ''generator'', 1), (''parking'', ''stairB'', 1),
              (''electrical'', ''generator'', 1), (''storage_b'', ''stairB'', 1),
              (''parking'', ''emExit'', 1), (''stairB'', ''stairB_exit'', 1)] \<rparr>"

section \<open>main.js: the global state\<close>

text \<open>
  \<^verbatim>\<open>floor\<close> is the active floor key, \<^verbatim>\<open>pos\<close> the selected room id or \<^verbatim>\<open>null\<close>, and
  \<^verbatim>\<open>haz[floorKey][nodeId]\<close> the hazard string of a node.
\<close>

record appState =
  floor_v :: floorKey
  pos :: "string option"
  haz :: "floorKey \<rightharpoonup> (string \<rightharpoonup> string)"

section \<open>routing.js: hazard accessors\<close>

definition ROOM_HAZARD_TYPES :: "string list" where
  "ROOM_HAZARD_TYPES = [''fire'', ''smoke'', ''blocked'', ''closed'']"

definition getHaz :: "appState \<Rightarrow> string \<Rightarrow> hazVal" where
  "getHaz st i =
     lookupOrEmpty (case haz st (floor_v st) of Some m \<Rightarrow> m | None \<Rightarrow> Map.empty) i"

text \<open>
  \<^verbatim>\<open>setHaz(id, val)\<close> creates the floor's object when it is missing, then stores a truthy
  value and deletes the key for a falsy one. A hazard value is a string, truthy iff it is
  not empty. Storing a string under \<^verbatim>\<open>__proto__\<close> leaves the object unchanged, unless the
  object owns a property of that name.
\<close>

definition setHaz :: "string \<Rightarrow> string \<Rightarrow> appState \<Rightarrow> appState" where
  "setHaz i val st =
     (let m = (case haz st (floor_v st) of Some m \<Rightarrow> m | None \<Rightarrow> Map.empty)
      in if val \<noteq> ''''
         then st\<lparr>haz := (haz st)(floor_v st \<mapsto>
                   (if i = ''__proto__'' \<and> m i = None then m else m(i \<mapsto> val)))\<rparr>
         else st\<lparr>haz := (haz st)(floor_v st \<mapsto> m(i := None))\<rparr>)"

definition isNodeBlocked :: "appState \<Rightarrow> string \<Rightarrow> bool" where
  "isNodeBlocked st i = (getHaz st i \<in> HazStr ` set ROOM_HAZARD_TYPES)"

text \<open>
  \<^verbatim>\<open>Object.assign({}, haz[floor] || {})\<close> stores every own property of the floor's object
  into a fresh object; the store under \<^verbatim>\<open>__proto__\<close> is the one that has no effect.
\<close>

definition snapshotHazards :: "appState \<Rightarrow> (string \<rightharpoonup> string)" where
  "snapshotHazards st =
     (case haz st (floor_v st) of Some m \<Rightarrow> m(''__proto__'' := None) | None \<Rightarrow> Map.empty)"

definition nodeIsHazardous :: "string \<Rightarrow> (string \<rightharpoonup> string) \<Rightarrow> bool" where
  "nodeIsHazardous i hazSnap = (lookupOrEmpty hazSnap i \<in> HazStr ` set ROOM_HAZARD_TYPES)"

section \<open>routing.js: graph construction\<close>

text \<open>
  The adjacency object starts as \<^verbatim>\<open>{}\<close>. \<open>lists\<close> holds its own properties, each an array
  of \<^verbatim>\<open>{to, w}\<close> entries. \<open>protoArray\<close> is \<open>None\<close> while the object inherits from
  \<^verbatim>\<open>Object.prototype\<close>; \<^verbatim>\<open>adj['__proto__'] = []\<close> makes the fresh array the prototype of
  \<^verbatim>\<open>adj\<close>, and \<open>protoArray\<close> then holds the entries of that array. For every other key
  \<^verbatim>\<open>adj[k] = []\<close> gives \<^verbatim>\<open>adj\<close> an own property.
\<close>

record adjObj =
  lists :: "string \<rightharpoonup> (string \<times> nat) list"
  protoArray :: "(string \<times> nat) list option"

definition initList :: "adjObj \<Rightarrow> string \<Rightarrow> adjObj" where
  "initList adj k =
     (if k = ''__proto__'' \<and> lists adj k = None then adj\<lparr>protoArray := Some []\<rparr>
      else adj\<lparr>lists := (lists adj)(k \<mapsto> [])\<rparr>)"

text \<open>
  \<^verbatim>\<open>adj[a].push(e)\<close> appends to the own array of \<^verbatim>\<open>a\<close>. Without an own property the read
  goes to the prototype: under \<^verbatim>\<open>__proto__\<close> it gives the prototype array when there is
  one, and \<^verbatim>\<open>push\<close> appends to that; every other value it can give (\<^verbatim>\<open>undefined\<close>, a
  function, \<^verbatim>\<open>Object.prototype\<close>, the length or an entry of the prototype array) has no
  \<^verbatim>\<open>push\<close> method, and the call throws a \<^verbatim>\<open>TypeError\<close>.
\<close>

definition pushEdge :: "adjObj \<Rightarrow> string \<Rightarrow> string \<times> nat \<Rightarrow> adjObj outcome" where
  "pushEdge adj a e =
     (case lists adj a of
        Some na \<Rightarrow> Returns (adj\<lparr>lists := (lists adj)(a \<mapsto> na @ [e])\<rparr>)
      | None \<Rightarrow>
          (case protoArray adj of
             Some xs \<Rightarrow>
               if a = ''__proto__'' then Returns (adj\<lparr>protoArray := Some (xs @ [e])\<rparr>)
               else Throws TypeError
           | None \<Rightarrow> Throws TypeError))"

definition addEdge ::
  "(string \<rightharpoonup> string) \<Rightarrow> adjObj outcome \<Rightarrow> string \<times> string \<times> nat \<Rightarrow> adjObj outcome" where
  "addEdge hazSnap acc e =
     (case acc of
        Returns adj \<Rightarrow>
          (case e of (a, b, w) \<Rightarrow>
             if nodeIsHazardous a hazSnap \<or> nodeIsHazardous b hazSnap then Returns adj
             else (case pushEdge adj a (b, w) of
                     Returns adj1 \<Rightarrow> pushEdge adj1 b (a, w)
                   | Throws err \<Rightarrow> Throws err
                   | Diverges \<Rightarrow> Diverges))
      | Throws err \<Rightarrow> Throws err
      | Diverges \<Rightarrow> Diverges)"

definition buildAdjacency :: "floorDef \<Rightarrow> (string \<rightharpoonup> string) \<Rightarrow> adjObj outcome" where
  "buildAdjacency fd hazSnap =
     (case computeCoords fd of (rs, es) \<Rightarrow>
        foldl (addEdge hazSnap)
          (Returns (foldl initList \<lparr>lists = Map.empty, protoArray = None\<rparr> (rs @ es)))
          (edges fd))"

text \<open>
  \<^verbatim>\<open>adj[u] || []\<close>, as the \<^verbatim>\<open>for ... of\<close> loop receives it. An own array is iterated.
  Otherwise the value comes from the prototype: the prototype array itself under
  \<^verbatim>\<open>__proto__\<close>, \<^verbatim>\<open>undefined\<close> (replaced by the empty array) for a key no prototype has,
  the number \<^verbatim>\<open>0\<close> (falsy, replaced as well) for the length of an empty prototype array,
  and in every other case a truthy value that is not iterable, on which the loop throws a
  \<^verbatim>\<open>TypeError\<close>.
\<close>

definition neighbours :: "adjObj \<Rightarrow> string \<Rightarrow> (string \<times> nat) list outcome" where
  "neighbours adj u =
     (case lists adj u of
        Some ns \<Rightarrow> Returns ns
      | None \<Rightarrow>
          (case protoArray adj of
             None \<Rightarrow> if inheritedKey u then Throws TypeError else Returns []
           | Some xs \<Rightarrow>
               if u = ''__proto__'' then Returns xs
               else if u = ''length'' then (if xs = [] then Returns [] else Throws TypeError)
               else if indexKey u xs \<or> u \<in> set arrayPrototypeKeys \<or> inheritedKey u
                    then Throws TypeError
               else Returns []))"

section \<open>routing.js: Dijkstra\<close>

text \<open>
  \<^verbatim>\<open>dist\<close> only ever receives numbers, so it keeps \<^verbatim>\<open>Object.prototype\<close> and a store under
  \<^verbatim>\<open>__proto__\<close> is lost. A read of a key that \<^verbatim>\<open>dist\<close> does not own gives \<^verbatim>\<open>undefined\<close>, a
  function or \<^verbatim>\<open>Object.prototype\<close>; each of them converts to \<^verbatim>\<open>NaN\<close> next to a number, so
  every comparison with it is false and \<^verbatim>\<open>isFinite\<close> rejects it.
\<close>

definition setNum :: "(string \<rightharpoonup> enat) \<Rightarrow> string \<Rightarrow> enat \<Rightarrow> (string \<rightharpoonup> enat)" where
  "setNum m k v = (if k = ''__proto__'' \<and> m k = None then m else m(k \<mapsto> v))"

text \<open>
  \<^verbatim>\<open>prev\<close> receives \<^verbatim>\<open>null\<close> and node ids. \<^verbatim>\<open>prev['__proto__'] = null\<close> removes the
  prototype of \<^verbatim>\<open>prev\<close> (\<open>protoNull\<close>); after that the object inherits nothing, and a later
  store under \<^verbatim>\<open>__proto__\<close> creates an own property. A node id stored under \<^verbatim>\<open>__proto__\<close>
  while the prototype is still there is lost.
\<close>

record prevObj =
  props :: "string \<rightharpoonup> string option"
  protoNull :: bool

definition storePrev :: "prevObj \<Rightarrow> string \<Rightarrow> string option \<Rightarrow> prevObj" where
  "storePrev p k v =
     (if k = ''__proto__'' \<and> props p k = None \<and> \<not> protoNull p
      then (case v of None \<Rightarrow> p\<lparr>protoNull := True\<rparr> | Some u \<Rightarrow> p)
      else p\<lparr>props := (props p)(k \<mapsto> v)\<rparr>)"

definition readPrev :: "prevObj \<Rightarrow> string \<Rightarrow> jsval option" where
  "readPrev p k =
     (case props p k of
        Some v \<Rightarrow> map_option Str v
      | None \<Rightarrow>
          if protoNull p \<or> \<not> inheritedKey k then Some Undefined
          else if k = ''__proto__'' then Some ObjectPrototype
          else Some (Member k))"

record dstate =
  dist_v :: "string \<rightharpoonup> enat"
  prev :: prevObj
  pq :: "(string \<times> nat) list"

definition numLess :: "nat \<Rightarrow> enat option \<Rightarrow> bool" where
  "numLess n x = (case x of Some y \<Rightarrow> enat n < y | None \<Rightarrow> False)"

definition numGreater :: "nat \<Rightarrow> enat option \<Rightarrow> bool" where
  "numGreater n x = (case x of Some y \<Rightarrow> y < enat n | None \<Rightarrow> False)"

function scanMin :: "(string \<times> nat) list \<Rightarrow> nat \<Rightarrow> nat \<Rightarrow> nat" where
  "scanMin q minIdx i =
     (if i < length q
      then scanMin q (if snd (q ! i) < snd (q ! minIdx) then i else minIdx) (i + 1)
      else minIdx)"
  by pat_completeness auto
termination
  by (relation "measure (\<lambda>(q, minIdx, i). length q - i)") auto

declare scanMin.simps [simp del]

text \<open>
  The body of the \<^verbatim>\<open>for ... of\<close> loop. \<^verbatim>\<open>nd = du + w\<close> is a sum of doubles; when it is
  \<^verbatim>\<open>Infinity\<close> the test \<^verbatim>\<open>nd < dist[to]\<close> fails. Queue entries therefore hold finite
  numbers.
\<close>

definition relax :: "(string \<rightharpoonup> string) \<Rightarrow> string \<Rightarrow> nat \<Rightarrow> dstate \<Rightarrow> string \<times> nat \<Rightarrow> dstate" where
  "relax hazSnap u du st e =
     (case e of (to, w) \<Rightarrow>
        if nodeIsHazardous to hazSnap then st
        else (case jsAdd du w of
                enat nd \<Rightarrow>
                  if numLess nd (dist_v st to)
                  then st\<lparr>dist_v := setNum (dist_v st) to (enat nd),
                          prev := storePrev (prev st) to (Some u),
                          pq := pq st @ [(to, nd)]\<rparr>
                  else st
              | \<infinity> \<Rightarrow> st))"

text \<open>One round of the \<^verbatim>\<open>while (pq.length)\<close> loop.\<close>

definition dijkstraStep :: "adjObj \<Rightarrow> (string \<rightharpoonup> string) \<Rightarrow> dstate \<Rightarrow> dstate outcome" where
  "dijkstraStep adj hazSnap st =
     (let minIdx = scanMin (pq st) 0 1;
          u = fst (pq st ! minIdx);
          du = snd (pq st ! minIdx);
          st1 = st\<lparr>pq := take minIdx (pq st) @ drop (Suc minIdx) (pq st)\<rparr>
      in if numGreater du (dist_v st1 u) then Returns st1
         else if nodeIsHazardous u hazSnap then Returns st1
         else (case neighbours adj u of
                 Returns ns \<Rightarrow> Returns (foldl (relax hazSnap u du) st1 ns)
               | Throws err \<Rightarrow> Throws err
               | Diverges \<Rightarrow> Diverges))"

definition running :: "dstate outcome \<Rightarrow> bool" where
  "running s = (case s of Returns st \<Rightarrow> pq st \<noteq> [] | _ \<Rightarrow> False)"

definition dijkstraLoop :: "adjObj \<Rightarrow> (string \<rightharpoonup> string) \<Rightarrow> dstate \<Rightarrow> dstate outcome" where
  "dijkstraLoop adj hazSnap st =
     (case while_option running
             (\<lambda>s. case s of Returns t \<Rightarrow> dijkstraStep adj hazSnap t | _ \<Rightarrow> s)
             (Returns st) of
        None \<Rightarrow> Diverges
      | Some s \<Rightarrow> s)"

definition dijkstra ::
  "floorDef \<Rightarrow> string \<Rightarrow> (string \<rightharpoonup> string) \<Rightarrow> ((string \<rightharpoonup> enat) \<times> prevObj) outcome" where
  "dijkstra fd startId hazSnap =
     (case computeCoords fd of (rs, es) \<Rightarrow>
        (let allIds = rs @ es;
             dist0 = foldl (\<lambda>m i. setNum m i \<infinity>) Map.empty allIds;
             prev0 = foldl (\<lambda>p i. storePrev p i None)
                       \<lparr>props = Map.empty, protoNull = False\<rparr> allIds
         in if nodeIsHazardous startId hazSnap then Returns (dist0, prev0)
            else (case buildAdjacency fd hazSnap of
                    Returns adj \<Rightarrow>
                      (case dijkstraLoop adj hazSnap
                              \<lparr>dist_v = setNum dist0 startId 0, prev = prev0,
                               pq = [(startId, 0)]\<rparr> of
                         Returns st \<Rightarrow> Returns (dist_v st, prev st)
                       | Throws err \<Rightarrow> Throws err
                       | Diverges \<Rightarrow> Diverges)
                  | Throws err \<Rightarrow> Throws err
                  | Diverges \<Rightarrow> Diverges)))"

text \<open>
  \<^verbatim>\<open>dijkstra(fd, startId, hazSnap).dist[v]\<close>, with \<open>None\<close> for a value that is not a
  number.
\<close>

definition distanceOf ::
  "floorDef \<Rightarrow> string \<Rightarrow> (string \<rightharpoonup> string) \<Rightarrow> string \<Rightarrow> enat option outcome" where
  "distanceOf fd startId hazSnap v = mapOutcome (\<lambda>(dst, prv). dst v) (dijkstra fd startId hazSnap)"

section \<open>routing.js: path reconstruction and the public entry point\<close>

text \<open>
  \<^verbatim>\<open>mkPath\<close> follows \<^verbatim>\<open>prev\<close> until it reads \<^verbatim>\<open>null\<close>, putting every value it passes at
  the front of the path, also the ones that are not node ids. The loop has no bound of its
  own, so the result is \<open>None\<close> when it never reads \<^verbatim>\<open>null\<close>.
\<close>

definition mkPath :: "prevObj \<Rightarrow> string \<Rightarrow> jsval list option" where
  "mkPath prv endId =
     map_option fst
       (while_option (\<lambda>(p, cur). cur \<noteq> None)
          (\<lambda>(p, cur). (the cur # p, readPrev prv (keyOf (the cur))))
          ([], Some (Str endId)))"

record route =
  exitId :: string
  d :: nat
  path :: "jsval list"

text \<open>The body of \<^verbatim>\<open>exits.forEach\<close>: skip a blocked exit, keep a strictly nearer one.\<close>

definition pickExit ::
  "(string \<rightharpoonup> string) \<Rightarrow> (string \<rightharpoonup> enat) \<Rightarrow> prevObj
     \<Rightarrow> route option outcome \<Rightarrow> string \<Rightarrow> route option outcome" where
  "pickExit hazSnap dst prv acc e =
     (case acc of
        Returns best \<Rightarrow>
          if lookupOrEmpty hazSnap e = HazStr ''exit-blocked'' then Returns best
          else (case dst e of
                  Some (enat n) \<Rightarrow>
                    if best = None \<or> n < d (the best)
                    then (case mkPath prv e of
                            Some p \<Rightarrow> Returns (Some \<lparr>exitId = e, d = n, path = p\<rparr>)
                          | None \<Rightarrow> Diverges)
                    else Returns best
                | _ \<Rightarrow> Returns best)
      | Throws err \<Rightarrow> Throws err
      | Diverges \<Rightarrow> Diverges)"

text \<open>
  \<^verbatim>\<open>findRoute()\<close> reads the globals \<^verbatim>\<open>pos\<close>, \<^verbatim>\<open>floor\<close>, \<^verbatim>\<open>haz\<close> and the building table;
  the table is an argument here, so that the results hold for every floor definition.
  \<^verbatim>\<open>!pos\<close> holds for \<^verbatim>\<open>null\<close> and for the empty string. Layer 3 inspects
  \<^verbatim>\<open>path[1 .. length - 2]\<close>, reading the snapshot under the key of each element.
\<close>

definition findRoute :: "(floorKey \<Rightarrow> floorDef) \<Rightarrow> appState \<Rightarrow> route option outcome" where
  "findRoute bldg st =
     (case pos st of
        None \<Rightarrow> Returns None
      | Some p \<Rightarrow>
          if p = '''' then Returns None
          else (let hazSnap = snapshotHazards st;
                    fd = bldg (floor_v st)
                in case computeCoords fd of (rs, es) \<Rightarrow>
                  (case dijkstra fd p hazSnap of
                     Returns (dst, prv) \<Rightarrow>
                       (case foldl (pickExit hazSnap dst prv) (Returns None) es of
                          Returns None \<Rightarrow> Returns None
                        | Returns (Some best) \<Rightarrow>
                            if \<exists>x \<in> set (butlast (tl (path best))).
                                 nodeIsHazardous (keyOf x) hazSnap
                            then Returns None
                            else Returns (Some best)
                        | Throws err \<Rightarrow> Throws err
                        | Diverges \<Rightarrow> Diverges)
                   | Throws err \<Rightarrow> Throws err
                   | Diverges \<Rightarrow> Diverges)))"

section \<open>Hazard-free walks\<close>

text \<open>
  The notions the properties are stated with. An arc joins two nodes that are both passable
  under the snapshot and are the endpoints of a declared edge, in either direction. A walk
  from \<open>u\<close> is the list of its steps, each the node reached and the weight of the edge
  taken; its cost is the sum of the weights.
\<close>

type_synonym arcs = "string \<Rightarrow> string \<Rightarrow> nat \<Rightarrow> bool"

definition arc :: "floorDef \<Rightarrow> (string \<rightharpoonup> string) \<Rightarrow> arcs" where
  "arc fd hs a b w \<longleftrightarrow>
     ((a, b, w) \<in> set (edges fd) \<or> (b, a, w) \<in> set (edges fd))
     \<and> \<not> nodeIsHazardous a hs \<and> \<not> nodeIsHazardous b hs"

fun walkR :: "arcs \<Rightarrow> string \<Rightarrow> (string \<times> nat) list \<Rightarrow> bool" where
  "walkR E u [] = True"
| "walkR E u ((v, w) # ss) = (E u v w \<and> walkR E v ss)"

fun walkEnd :: "string \<Rightarrow> (string \<times> nat) list \<Rightarrow> string" where
  "walkEnd u [] = u"
| "walkEnd u ((v, w) # ss) = walkEnd v ss"

definition walkCost :: "(string \<times> nat) list \<Rightarrow> nat" where
  "walkCost ss = sum_list (map snd ss)"

definition declared :: "floorDef \<Rightarrow> string set" where
  "declared fd = set (rooms fd @ exits fd)"

text \<open>The invariant of a floor graph: the endpoints of every edge are declared nodes.\<close>

definition edgesDeclared :: "floorDef \<Rightarrow> bool" where
  "edgesDeclared fd \<longleftrightarrow> (\<forall>(a, b, w) \<in> set (edges fd). a \<in> declared fd \<and> b \<in> declared fd)"

text \<open>
  What \<^verbatim>\<open>buildAdjacency\<close> needs in order not to throw: the endpoints of every edge between
  two passable nodes are declared.
\<close>

definition passableEdgesDeclared :: "floorDef \<Rightarrow> (string \<rightharpoonup> string) \<Rightarrow> bool" where
  "passableEdgesDeclared fd hs \<longleftrightarrow>
     (\<forall>(a, b, w) \<in> set (edges fd). \<not> nodeIsHazardous a hs \<longrightarrow> \<not> nodeIsHazardous b hs
        \<longrightarrow> a \<in> declared fd \<and> b \<in> declared fd)"

text \<open>
  Floors on which the dictionaries behave as finite maps and the sums are exact: no node is
  named \<^verbatim>\<open>__proto__\<close>, and the number of nodes times the largest edge weight is at most
  \<open>2^53\<close>, which bounds the cost of every walk that visits no node twice, one more edge
  included.
\<close>

definition noProtoNode :: "floorDef \<Rightarrow> bool" where
  "noProtoNode fd \<longleftrightarrow> ''__proto__'' \<notin> declared fd"

definition maxWeight :: "floorDef \<Rightarrow> nat" where
  "maxWeight fd = foldr (\<lambda>(a, b, w) m. max w m) (edges fd) 0"

definition exactSums :: "floorDef \<Rightarrow> bool" where
  "exactSums fd \<longleftrightarrow>
     (length (rooms fd) + length (exits fd)) * maxWeight fd \<le> 9007199254740992"

section \<open>The search on finite maps\<close>

text \<open>
  The computations of \<^verbatim>\<open>buildAdjacency\<close> and \<^verbatim>\<open>dijkstra\<close> with every dictionary a finite
  map, every store a map update and every sum exact. The search is analysed in this form;
  the functions above are then shown to compute the same on the floors that satisfy
  \<open>noProtoNode\<close> and \<open>exactSums\<close>.
\<close>

definition plainAddEdge ::
  "(string \<rightharpoonup> string) \<Rightarrow> (string \<rightharpoonup> (string \<times> nat) list) outcome \<Rightarrow> string \<times> string \<times> nat
     \<Rightarrow> (string \<rightharpoonup> (string \<times> nat) list) outcome" where
  "plainAddEdge hazSnap acc e =
     (case acc of
        Returns adj \<Rightarrow>
          (case e of (a, b, w) \<Rightarrow>
             if nodeIsHazardous a hazSnap \<or> nodeIsHazardous b hazSnap then Returns adj
             else (case adj a of
                     None \<Rightarrow> Throws TypeError
                   | Some na \<Rightarrow>
                       (let adj1 = adj(a \<mapsto> na @ [(b, w)])
                        in case adj1 b of
                             None \<Rightarrow> Throws TypeError
                           | Some nb \<Rightarrow> Returns (adj1(b \<mapsto> nb @ [(a, w)])))))
      | Throws err \<Rightarrow> Throws err
      | Diverges \<Rightarrow> Diverges)"

definition plainAdjacency ::
  "floorDef \<Rightarrow> (string \<rightharpoonup> string) \<Rightarrow> (string \<rightharpoonup> (string \<times> nat) list) outcome" where
  "plainAdjacency fd hazSnap =
     (case computeCoords fd of (rs, es) \<Rightarrow>
        foldl (plainAddEdge hazSnap)
          (Returns (foldl (\<lambda>adj n. adj(n \<mapsto> [])) Map.empty (rs @ es)))
          (edges fd))"

record plainState =
  pdist :: "string \<rightharpoonup> enat"
  pprev :: "string \<rightharpoonup> string option"
  ppq :: "(string \<times> nat) list"

definition plainRelax :: "(string \<rightharpoonup> string) \<Rightarrow> string \<Rightarrow> nat \<Rightarrow> plainState \<Rightarrow> string \<times> nat \<Rightarrow> plainState" where
  "plainRelax hazSnap u du st e =
     (case e of (to, w) \<Rightarrow>
        if nodeIsHazardous to hazSnap then st
        else (let nd = du + w
              in if numLess nd (pdist st to)
                 then st\<lparr>pdist := (pdist st)(to \<mapsto> enat nd),
                         pprev := (pprev st)(to \<mapsto> Some u),
                         ppq := ppq st @ [(to, nd)]\<rparr>
                 else st))"

text \<open>
  One round of the loop. A key without an entry in \<open>adj\<close> has no neighbours, unless it
  names a member of \<^verbatim>\<open>Object.prototype\<close>: iterating over that member throws.
\<close>

definition plainStep ::
  "(string \<rightharpoonup> (string \<times> nat) list) \<Rightarrow> (string \<rightharpoonup> string) \<Rightarrow> plainState \<Rightarrow> plainState outcome" where
  "plainStep adj hazSnap st =
     (let minIdx = scanMin (ppq st) 0 1;
          u = fst (ppq st ! minIdx);
          du = snd (ppq st ! minIdx);
          st1 = st\<lparr>ppq := take minIdx (ppq st) @ drop (Suc minIdx) (ppq st)\<rparr>
      in if numGreater du (pdist st1 u) then Returns st1
         else if nodeIsHazardous u hazSnap then Returns st1
         else (case adj u of
                 Some ns \<Rightarrow> Returns (foldl (plainRelax hazSnap u du) st1 ns)
               | None \<Rightarrow> if inheritedKey u then Throws TypeError else Returns st1))"

definition plainRunning :: "plainState outcome \<Rightarrow> bool" where
  "plainRunning s = (case s of Returns st \<Rightarrow> ppq st \<noteq> [] | _ \<Rightarrow> False)"

definition plainLoop ::
  "(string \<rightharpoonup> (string \<times> nat) list) \<Rightarrow> (string \<rightharpoonup> string) \<Rightarrow> plainState \<Rightarrow> plainState outcome" where
  "plainLoop adj hazSnap st =
     (case while_option plainRunning
             (\<lambda>s. case s of Returns t \<Rightarrow> plainStep adj hazSnap t | _ \<Rightarrow> s)
             (Returns st) of
        None \<Rightarrow> Diverges
      | Some s \<Rightarrow> s)"

definition plainSearch ::
  "floorDef \<Rightarrow> string \<Rightarrow> (string \<rightharpoonup> string)
     \<Rightarrow> ((string \<rightharpoonup> enat) \<times> (string \<rightharpoonup> string option)) outcome" where
  "plainSearch fd startId hazSnap =
     (case computeCoords fd of (rs, es) \<Rightarrow>
        (let allIds = rs @ es;
             dist0 = foldl (\<lambda>m i. m(i \<mapsto> \<infinity>)) Map.empty allIds;
             prev0 = foldl (\<lambda>m i. m(i \<mapsto> None)) Map.empty allIds
         in if nodeIsHazardous startId hazSnap then Returns (dist0, prev0)
            else (case plainAdjacency fd hazSnap of
                    Returns adj \<Rightarrow>
                      (case plainLoop adj hazSnap
                              \<lparr>pdist = dist0(startId \<mapsto> 0), pprev = prev0, ppq = [(startId, 0)]\<rparr> of
                         Returns st \<Rightarrow> Returns (pdist st, pprev st)
                       | Throws err \<Rightarrow> Throws err
                       | Diverges \<Rightarrow> Diverges)
                  | Throws err \<Rightarrow> Throws err
                  | Diverges \<Rightarrow> Diverges)))"


text \<open>How a result of the search on finite maps reads as a result of the program.\<close>

definition asAdj :: "(string \<rightharpoonup> (string \<times> nat) list) \<Rightarrow> adjObj" where
  "asAdj adj = \<lparr>lists = adj, protoArray = None\<rparr>"

definition asPrev :: "(string \<rightharpoonup> string option) \<Rightarrow> prevObj" where
  "asPrev prv = \<lparr>props = prv, protoNull = False\<rparr>"

definition asState :: "plainState \<Rightarrow> dstate" where
  "asState st = \<lparr>dist_v = pdist st, prev = asPrev (pprev st), pq = ppq st\<rparr>"

section \<open>Invariants of the search\<close>

text \<open>
  The arcs that the loop can follow in an adjacency object, the state the loop starts
  from, and the invariant of the loop: \<open>S\<close> is the set of nodes whose queue entry has been
  expanded, \<open>rk\<close> orders them by the time of expansion, and \<open>Cl\<close> marks the arcs that have
  been relaxed.
\<close>

definition adjArcs :: "(string \<rightharpoonup> (string \<times> nat) list) \<Rightarrow> (string \<rightharpoonup> string) \<Rightarrow> arcs" where
  "adjArcs adj hs u v w \<longleftrightarrow>
     (\<exists>ns. adj u = Some ns \<and> (v, w) \<in> set ns) \<and> \<not> nodeIsHazardous u hs \<and> \<not> nodeIsHazardous v hs"

definition nbrs :: "(string \<rightharpoonup> (string \<times> nat) list) \<Rightarrow> string \<Rightarrow> (string \<times> nat) set" where
  "nbrs adj u = (case adj u of Some ns \<Rightarrow> set ns | None \<Rightarrow> {})"

definition dist0 :: "floorDef \<Rightarrow> (string \<rightharpoonup> enat)" where
  "dist0 fd = (\<lambda>k. if k \<in> declared fd then Some \<infinity> else None)"

definition prev0 :: "floorDef \<Rightarrow> (string \<rightharpoonup> string option)" where
  "prev0 fd = (\<lambda>k. if k \<in> declared fd then Some None else None)"

definition initState :: "floorDef \<Rightarrow> string \<Rightarrow> plainState" where
  "initState fd s = \<lparr>pdist = (dist0 fd)(s \<mapsto> 0), pprev = prev0 fd, ppq = [(s, 0)]\<rparr>"

definition sound :: "arcs \<Rightarrow> string \<Rightarrow> (string \<rightharpoonup> enat) \<Rightarrow> bool" where
  "sound E s ds \<longleftrightarrow>
     (\<forall>v n. ds v = Some (enat n) \<longrightarrow> (\<exists>ss. walkR E s ss \<and> walkEnd s ss = v \<and> walkCost ss = n))"

definition optimal :: "arcs \<Rightarrow> string \<Rightarrow> (string \<rightharpoonup> enat) \<Rightarrow> string \<Rightarrow> bool" where
  "optimal E s ds u \<longleftrightarrow>
     (\<exists>n. ds u = Some (enat n) \<and> (\<forall>ss. walkR E s ss \<and> walkEnd s ss = u \<longrightarrow> n \<le> walkCost ss))"

definition relaxed :: "(string \<rightharpoonup> enat) \<Rightarrow> string \<Rightarrow> string \<Rightarrow> nat \<Rightarrow> bool" where
  "relaxed ds a v w \<longleftrightarrow> (\<exists>x m. ds v = Some x \<and> ds a = Some (enat m) \<and> x \<le> enat (m + w))"

definition treeOK :: "arcs \<Rightarrow> string \<Rightarrow> string set \<Rightarrow> (string \<Rightarrow> nat) \<Rightarrow> plainState \<Rightarrow> bool" where
  "treeOK E s S rk st \<longleftrightarrow>
     (\<forall>v n. v \<noteq> s \<longrightarrow> pdist st v = Some (enat n) \<longrightarrow>
        (\<exists>a w m. pprev st v = Some (Some a) \<and> E a v w \<and> pdist st a = Some (enat m)
           \<and> n = m + w \<and> a \<in> S \<and> (v \<in> S \<longrightarrow> rk a < rk v)))"

definition dinv ::
  "arcs \<Rightarrow> string \<Rightarrow> string option option \<Rightarrow> string set \<Rightarrow> (string \<Rightarrow> nat)
     \<Rightarrow> (string \<Rightarrow> string \<Rightarrow> nat \<Rightarrow> bool) \<Rightarrow> plainState \<Rightarrow> bool" where
  "dinv E s ps S rk Cl st \<longleftrightarrow>
     pdist st s = Some 0 \<and> pprev st s = ps \<and>
     sound E s (pdist st) \<and>
     (\<forall>u\<in>S. optimal E s (pdist st) u) \<and>
     (\<forall>a v w. Cl a v w \<longrightarrow> E a v w \<longrightarrow> relaxed (pdist st) a v w) \<and>
     (\<forall>v n. pdist st v = Some (enat n) \<longrightarrow> v \<notin> S \<longrightarrow> (v, n) \<in> set (ppq st)) \<and>
     (\<forall>x \<in> set (ppq st). \<exists>y. pdist st (fst x) = Some y \<and> y \<le> enat (snd x)) \<and>
     treeOK E s S rk st \<and>
     (\<forall>a v w. E a v w \<longrightarrow> v \<in> dom (pdist st))"

definition loopInv ::
  "(string \<rightharpoonup> (string \<times> nat) list) \<Rightarrow> (string \<rightharpoonup> string) \<Rightarrow> string \<Rightarrow> string option option
     \<Rightarrow> plainState outcome \<Rightarrow> bool" where
  "loopInv adj hs s ps out =
     (case out of
        Returns st \<Rightarrow> (\<exists>S rk. dinv (adjArcs adj hs) s ps S rk (\<lambda>a v w. a \<in> S) st)
      | Throws err \<Rightarrow> adj s = None \<and> inheritedKey s
      | Diverges \<Rightarrow> True)"

definition prevTree ::
  "arcs \<Rightarrow> string \<Rightarrow> (string \<rightharpoonup> enat) \<Rightarrow> (string \<rightharpoonup> string option) \<Rightarrow> (string \<Rightarrow> nat) \<Rightarrow> bool" where
  "prevTree E s dst prv rk \<longleftrightarrow>
     (\<forall>v n. v \<noteq> s \<longrightarrow> dst v = Some (enat n) \<longrightarrow>
        (\<exists>a w m. prv v = Some (Some a) \<and> E a v w \<and> dst a = Some (enat m)
           \<and> n = m + w \<and> rk a < rk v))"

text \<open>The measure that decreases with every round of the loop.\<close>

definition infCount :: "(string \<rightharpoonup> enat) \<Rightarrow> nat" where
  "infCount ds = card {v \<in> dom ds. ds v = Some \<infinity>}"

definition finSum :: "(string \<rightharpoonup> enat) \<Rightarrow> nat" where
  "finSum ds = (\<Sum>v \<in> dom ds. case ds v of Some (enat n) \<Rightarrow> n | _ \<Rightarrow> 0)"

definition loopMeasure :: "plainState outcome \<Rightarrow> nat \<times> nat \<times> nat" where
  "loopMeasure out =
     (case out of
        Returns st \<Rightarrow> (infCount (pdist st), finSum (pdist st), length (ppq st))
      | _ \<Rightarrow> (0, 0, 0))"

definition distLess :: "((string \<rightharpoonup> enat) \<times> (string \<rightharpoonup> enat)) set" where
  "distLess = inv_image (less_than <*lex*> less_than) (\<lambda>ds. (infCount ds, finSum ds))"

definition loopLess :: "(plainState outcome \<times> plainState outcome) set" where
  "loopLess = inv_image (less_than <*lex*> less_than <*lex*> less_than) loopMeasure"

text \<open>The list that \<^verbatim>\<open>mkPath\<close> builds when the predecessor links end in \<^verbatim>\<open>null\<close>.\<close>

inductive chain :: "(string \<rightharpoonup> string option) \<Rightarrow> string \<Rightarrow> string list \<Rightarrow> bool"
  for prv :: "string \<rightharpoonup> string option" where
  chain_start: "prv v = Some None \<Longrightarrow> chain prv v [v]"
| chain_step: "prv v = Some (Some a) \<Longrightarrow> chain prv a p \<Longrightarrow> chain prv v (p @ [v])"

section \<open>Scenarios\<close>

text \<open>
  States of the application on the ground floor, with a selected position and the hazards
  of that floor; a small floor with two exits at the same distance from its hall; floors
  with a node named \<^verbatim>\<open>__proto__\<close>; and floors with weights near \<open>2^53\<close>.
\<close>

definition groundFloor :: "string option \<Rightarrow> (string \<rightharpoonup> string) \<Rightarrow> appState" where
  "groundFloor p hz = \<lparr>floor_v = GF, pos = p, haz = [GF \<mapsto> hz]\<rparr>"


definition protoDetour :: "floorKey \<Rightarrow> floorDef" where
  "protoDetour k = \<lparr>rooms = [''a'', ''b'', ''c'', ''__proto__''], exits = [''x''],
      edges = [(''a'', ''b'', 1), (''b'', ''c'', 1), (''c'', ''x'', 1),
               (''a'', ''__proto__'', 1), (''__proto__'', ''x'', 1)]\<rparr>"


definition protoStart :: "floorKey \<Rightarrow> floorDef" where
  "protoStart k = \<lparr>rooms = [''__proto__'', ''undefined''], exits = [''x''],
      edges = [(''__proto__'', ''x'', 1)]\<rparr>"

definition protoExit :: "floorKey \<Rightarrow> floorDef" where
  "protoExit k = \<lparr>rooms = [''a'', ''b'', ''c''], exits = [''__proto__''],
      edges = [(''a'', ''b'', 1), (''b'', ''__proto__'', 1), (''a'', ''c'', 1)]\<rparr>"

definition heavy :: "floorKey \<Rightarrow> floorDef" where
  "heavy k = \<lparr>rooms = [''a'', ''b'', ''c''], exits = [''x''],
      edges = [(''a'', ''b'', 9007199254740994), (''b'', ''x'', 1)]\<rparr>"


section \<open>Lemmas: hazard predicate\<close>

lemma nodeIsHazardous_iff:
  "nodeIsHazardous i s \<longleftrightarrow> s i \<in> Some ` set ROOM_HAZARD_TYPES"
  by (auto simp: nodeIsHazardous_def lookupOrEmpty_def ROOM_HAZARD_TYPES_def split: option.splits)

lemma exitBlocked_iff:
  "lookupOrEmpty s e = HazStr ''exit-blocked'' \<longleftrightarrow> s e = Some ''exit-blocked''"
  by (auto simp: lookupOrEmpty_def split: option.splits)

lemma foldl_const_upd:
  "foldl (\<lambda>m i. m(i \<mapsto> c)) m0 xs = (\<lambda>k. if k \<in> set xs then Some c else m0 k)"
  by (induction xs arbitrary: m0) (auto simp: fun_eq_iff)

section \<open>Lemmas: walks, queue scan\<close>

lemma walkR_append:
  "walkR E u (xs @ ys) = (walkR E u xs \<and> walkR E (walkEnd u xs) ys)"
  by (induction xs arbitrary: u) auto

lemma walkEnd_append: "walkEnd u (xs @ ys) = walkEnd (walkEnd u xs) ys"
  by (induction xs arbitrary: u) auto

lemma walkCost_simps [simp]:
  "walkCost [] = 0" "walkCost ((v, w) # ss) = w + walkCost ss"
  "walkCost (xs @ ys) = walkCost xs + walkCost ys"
  by (simp_all add: walkCost_def)

lemma walkEnd_last: "walkEnd u ss = last (u # map fst ss)"
  by (induction ss arbitrary: u) auto

lemma scanMin_correct:
  "minIdx < length q \<Longrightarrow> i \<le> length q \<Longrightarrow> \<forall>j<i. snd (q ! minIdx) \<le> snd (q ! j) \<Longrightarrow>
     scanMin q minIdx i < length q \<and> (\<forall>j<length q. snd (q ! scanMin q minIdx i) \<le> snd (q ! j))"
proof (induction q minIdx i rule: scanMin.induct)
  case (1 q minIdx i)
  show ?case
  proof (cases "i < length q")
    case True
    let ?m = "if snd (q ! i) < snd (q ! minIdx) then i else minIdx"
    have a: "?m < length q" using True 1 by simp
    have b: "\<forall>j<i + 1. snd (q ! ?m) \<le> snd (q ! j)"
    proof (intro allI impI)
      fix j assume "j < i + 1"
      then consider "j < i" | "j = i" by linarith
      then show "snd (q ! ?m) \<le> snd (q ! j)"
        using "1.prems"(3) by cases (auto simp: less_imp_le dest!: spec[of _ j])
    qed
    from "1.IH"[OF True a _ b] True show ?thesis
      by (subst scanMin.simps, subst (2) scanMin.simps) simp
  next
    case False
    with 1 show ?thesis by (subst scanMin.simps, subst (2) scanMin.simps) simp
  qed
qed

lemma scanMin_first:
  assumes "q \<noteq> []"
  shows "scanMin q 0 1 < length q" "\<And>x. x \<in> set q \<Longrightarrow> snd (q ! scanMin q 0 1) \<le> snd x"
proof -
  have *: "scanMin q 0 1 < length q \<and> (\<forall>j<length q. snd (q ! scanMin q 0 1) \<le> snd (q ! j))"
    using assms by (intro scanMin_correct) (auto simp: Suc_le_eq)
  then show "scanMin q 0 1 < length q" by simp
  fix x assume "x \<in> set q"
  then obtain j where "j < length q" "q ! j = x" by (auto simp: in_set_conv_nth)
  with * show "snd (q ! scanMin q 0 1) \<le> snd x" by auto
qed

lemma set_remove_nth_subset: "set (take i xs @ drop (Suc i) xs) \<subseteq> set xs"
  by (auto dest: in_set_takeD in_set_dropD)

lemma in_set_remove_nth:
  assumes "x \<in> set xs" "i < length xs" "x \<noteq> xs ! i"
  shows "x \<in> set (take i xs @ drop (Suc i) xs)"
proof -
  from assms(1) obtain j where j: "j < length xs" "xs ! j = x" by (auto simp: in_set_conv_nth)
  with assms(3) have "j \<noteq> i" by auto
  then consider "j < i" | "i < j" by linarith
  then show ?thesis
  proof cases
    case 1
    with j assms(2) have "x \<in> set (take i xs)" by (auto simp: in_set_conv_nth intro!: exI[of _ j])
    then show ?thesis by simp
  next
    case 2
    then obtain k where k: "j = Suc i + k" by (metis less_iff_Suc_add add_Suc)
    with j have "x \<in> set (drop (Suc i) xs)"
      by (auto simp: in_set_conv_nth intro!: exI[of _ k])
    then show ?thesis by simp
  qed
qed

lemma length_remove_nth:
  "i < length xs \<Longrightarrow> length (take i xs @ drop (Suc i) xs) < length xs"
  by simp

section \<open>Lemmas: the frontier argument\<close>

lemma dinv_weaken:
  assumes "dinv E s ps S rk Cl st" "\<And>a v w. Cl2 a v w \<Longrightarrow> E a v w \<Longrightarrow> Cl a v w"
  shows "dinv E s ps S rk Cl2 st"
  using assms unfolding dinv_def by blast

lemma frontier:
  assumes inv: "dinv E s ps S rk (\<lambda>a v w. a \<in> S) st"
    and low: "\<forall>x\<in>set (ppq st). m \<le> snd x"
    and walk: "walkR E s ss"
  shows "(walkEnd s ss \<in> S \<and> (\<exists>n. pdist st (walkEnd s ss) = Some (enat n) \<and> n \<le> walkCost ss))
         \<or> m \<le> walkCost ss"
  using walk
proof (induction ss rule: rev_induct)
  case Nil
  from inv have s0: "pdist st s = Some (enat 0)" by (simp add: dinv_def zero_enat_def)
  show ?case
  proof (cases "s \<in> S")
    case True
    with s0 show ?thesis by simp
  next
    case False
    with inv s0 have "(s, 0) \<in> set (ppq st)" unfolding dinv_def by blast
    with low have "m \<le> 0" by fastforce
    then show ?thesis by simp
  qed
next
  case (snoc e ss)
  obtain x w where e: "e = (x, w)" by (cases e)
  from snoc.prems e have wk: "walkR E s ss" and arc: "E (walkEnd s ss) x w"
    by (simp_all add: walkR_append)
  let ?y = "walkEnd s ss"
  from snoc.IH[OF wk] show ?case
  proof
    assume "m \<le> walkCost ss"
    then show ?thesis by simp
  next
    assume "?y \<in> S \<and> (\<exists>n. pdist st ?y = Some (enat n) \<and> n \<le> walkCost ss)"
    then obtain n where y: "?y \<in> S" "pdist st ?y = Some (enat n)" "n \<le> walkCost ss" by blast
    from inv y(1) arc have "relaxed (pdist st) ?y x w" unfolding dinv_def by blast
    with y(2) obtain dx where dx: "pdist st x = Some dx" "dx \<le> enat (n + w)"
      by (auto simp: relaxed_def)
    then obtain k where k: "dx = enat k" "k \<le> n + w" by (cases dx) auto
    have cost: "walkCost (ss @ [e]) = walkCost ss + w" using e by simp
    have endx: "walkEnd s (ss @ [e]) = x" using e by (simp add: walkEnd_append)
    show ?thesis
    proof (cases "x \<in> S")
      case True
      with dx k y(3) cost endx show ?thesis by auto
    next
      case False
      with inv dx k have "(x, k) \<in> set (ppq st)" unfolding dinv_def by blast
      with low have "m \<le> k" by fastforce
      with k y(3) cost show ?thesis by simp
    qed
  qed
qed

section \<open>Lemmas: relaxation keeps the invariant\<close>

lemma enat_less_le_nat: "enat a < x \<Longrightarrow> x \<le> enat b \<Longrightarrow> a \<le> b"
  by (cases x) auto

lemma plainRelax_unchanged:
  "nodeIsHazardous v hs \<or> \<not> numLess (du + w) (pdist st v) \<Longrightarrow> plainRelax hs u du st (v, w) = st"
  by (auto simp: plainRelax_def Let_def)

lemma plainRelax_changed:
  "\<not> nodeIsHazardous v hs \<Longrightarrow> numLess (du + w) (pdist st v) \<Longrightarrow>
     plainRelax hs u du st (v, w) =
       st\<lparr>pdist := (pdist st)(v \<mapsto> enat (du + w)), pprev := (pprev st)(v \<mapsto> Some u),
          ppq := ppq st @ [(v, du + w)]\<rparr>"
  by (auto simp: plainRelax_def Let_def)

lemma plainRelax_dinv:
  assumes inv: "dinv E s ps S rk Cl st"
    and uS: "u \<in> S" and du: "pdist st u = Some (enat du)"
    and ClS: "\<And>a b c. Cl a b c \<Longrightarrow> a \<in> S"
    and hz: "nodeIsHazardous v hs \<Longrightarrow> \<not> E u v w"
    and nhz: "\<not> nodeIsHazardous v hs \<Longrightarrow> E u v w"
  shows "dinv E s ps S rk (\<lambda>a b c. Cl a b c \<or> (a = u \<and> b = v \<and> c = w)) (plainRelax hs u du st (v, w))
         \<and> pdist (plainRelax hs u du st (v, w)) u = Some (enat du)"
proof (cases "nodeIsHazardous v hs")
  case True
  then have "plainRelax hs u du st (v, w) = st" by (simp add: plainRelax_unchanged)
  moreover have "dinv E s ps S rk (\<lambda>a b c. Cl a b c \<or> (a = u \<and> b = v \<and> c = w)) st"
    using inv hz[OF True] unfolding dinv_def by blast
  ultimately show ?thesis using du by simp
next
  case False
  note arc = nhz[OF False]
  from inv arc obtain x where x: "pdist st v = Some x" unfolding dinv_def by blast
  show ?thesis
  proof (cases "enat (du + w) < x")
    case False
    then have "plainRelax hs u du st (v, w) = st" using x by (simp add: plainRelax_unchanged numLess_def)
    moreover have "relaxed (pdist st) u v w" using x du False by (auto simp: relaxed_def)
    then have "dinv E s ps S rk (\<lambda>a b c. Cl a b c \<or> (a = u \<and> b = v \<and> c = w)) st"
      using inv unfolding dinv_def by blast
    ultimately show ?thesis using du by simp
  next
    case True
    let ?nd = "du + w"
    let ?st = "st\<lparr>pdist := (pdist st)(v \<mapsto> enat ?nd), pprev := (pprev st)(v \<mapsto> Some u),
          ppq := ppq st @ [(v, ?nd)]\<rparr>"
    have eq: "plainRelax hs u du st (v, w) = ?st"
      using \<open>\<not> nodeIsHazardous v hs\<close> True x by (simp add: plainRelax_changed numLess_def)
    from inv have s0: "pdist st s = Some 0" and snd0: "sound E s (pdist st)"
      and opt: "\<forall>u\<in>S. optimal E s (pdist st) u"
      and cl: "\<forall>a v w. Cl a v w \<longrightarrow> E a v w \<longrightarrow> relaxed (pdist st) a v w"
      and cov: "\<forall>v n. pdist st v = Some (enat n) \<longrightarrow> v \<notin> S \<longrightarrow> (v, n) \<in> set (ppq st)"
      and qs: "\<forall>x \<in> set (ppq st). \<exists>y. pdist st (fst x) = Some y \<and> y \<le> enat (snd x)"
      and tr: "treeOK E s S rk st"
      and dm: "\<forall>a v w. E a v w \<longrightarrow> v \<in> dom (pdist st)"
      and pss: "pprev st s = ps"
      unfolding dinv_def by blast+
    from snd0 du obtain su where su: "walkR E s su" "walkEnd s su = u" "walkCost su = du"
      unfolding sound_def by blast
    have wv: "walkR E s (su @ [(v, w)])" "walkEnd s (su @ [(v, w)]) = v"
      "walkCost (su @ [(v, w)]) = ?nd"
      using su arc by (simp_all add: walkR_append walkEnd_append)
    have vs: "v \<noteq> s" using s0 x True by auto
    have vS: "v \<notin> S"
    proof
      assume "v \<in> S"
      with opt have "optimal E s (pdist st) v" by blast
      with x wv obtain n where "x = enat n" "n \<le> ?nd" unfolding optimal_def by fastforce
      with True show False by simp
    qed
    then have uv: "u \<noteq> v" using uS by blast
    have c1: "pdist ?st s = Some 0" using s0 vs by simp
    have c2: "pprev ?st s = ps" using pss vs by simp
    have c3: "sound E s (pdist ?st)"
      unfolding sound_def
    proof (intro allI impI)
      fix b n assume b: "pdist ?st b = Some (enat n)"
      show "\<exists>ss. walkR E s ss \<and> walkEnd s ss = b \<and> walkCost ss = n"
      proof (cases "b = v")
        case True
        with b have "n = ?nd" by simp
        with wv True show ?thesis by blast
      next
        case False
        with b snd0 show ?thesis unfolding sound_def by simp
      qed
    qed
    have c4: "\<forall>u\<in>S. optimal E s (pdist ?st) u"
    proof
      fix b assume "b \<in> S"
      with vS have "b \<noteq> v" by blast
      with opt \<open>b \<in> S\<close> show "optimal E s (pdist ?st) b" unfolding optimal_def by simp
    qed
    have rel_mono: "relaxed (pdist ?st) a b c" if r: "relaxed (pdist st) a b c" and "a \<noteq> v" for a b c
    proof (cases "b = v")
      case True
      from r True x obtain m where "pdist st a = Some (enat m)" "x \<le> enat (m + c)"
        by (auto simp: relaxed_def)
      moreover from this \<open>enat ?nd < x\<close> have "enat ?nd \<le> enat (m + c)"
        by (meson less_le_trans less_imp_le)
      ultimately show ?thesis using True \<open>a \<noteq> v\<close> by (auto simp: relaxed_def)
    next
      case False
      with r \<open>a \<noteq> v\<close> show ?thesis by (auto simp: relaxed_def)
    qed
    have c5: "\<forall>a b c. (Cl a b c \<or> (a = u \<and> b = v \<and> c = w)) \<longrightarrow> E a b c \<longrightarrow> relaxed (pdist ?st) a b c"
    proof (intro allI impI)
      fix a b c assume h: "Cl a b c \<or> (a = u \<and> b = v \<and> c = w)" and e: "E a b c"
      from h show "relaxed (pdist ?st) a b c"
      proof
        assume "Cl a b c"
        then have "a \<in> S" by (rule ClS)
        with vS have "a \<noteq> v" by blast
        from cl \<open>Cl a b c\<close> e have "relaxed (pdist st) a b c" by blast
        then show ?thesis using \<open>a \<noteq> v\<close> by (rule rel_mono)
      next
        assume "a = u \<and> b = v \<and> c = w"
        then show ?thesis using du uv by (auto simp: relaxed_def)
      qed
    qed
    have c6: "\<forall>b n. pdist ?st b = Some (enat n) \<longrightarrow> b \<notin> S \<longrightarrow> (b, n) \<in> set (ppq ?st)"
      using cov by auto
    have c7: "\<forall>e \<in> set (ppq ?st). \<exists>y. pdist ?st (fst e) = Some y \<and> y \<le> enat (snd e)"
    proof
      fix e assume "e \<in> set (ppq ?st)"
      then consider "e = (v, ?nd)" | "e \<in> set (ppq st)" by auto
      then show "\<exists>y. pdist ?st (fst e) = Some y \<and> y \<le> enat (snd e)"
      proof cases
        case 1 then show ?thesis by simp
      next
        case 2
        with qs obtain y where y: "pdist st (fst e) = Some y" "y \<le> enat (snd e)" by blast
        show ?thesis
        proof (cases "fst e = v")
          case True
          with y x have "x \<le> enat (snd e)" by simp
          with \<open>enat ?nd < x\<close> have "?nd \<le> snd e" by (rule enat_less_le_nat)
          with True show ?thesis by simp
        next
          case False with y show ?thesis by simp
        qed
      qed
    qed
    have c8: "treeOK E s S rk ?st"
      unfolding treeOK_def
    proof (intro allI impI)
      fix b n assume bs: "b \<noteq> s" and b: "pdist ?st b = Some (enat n)"
      show "\<exists>a w m. pprev ?st b = Some (Some a) \<and> E a b w \<and> pdist ?st a = Some (enat m)
           \<and> n = m + w \<and> a \<in> S \<and> (b \<in> S \<longrightarrow> rk a < rk b)"
      proof (cases "b = v")
        case True
        with b have "n = ?nd" by simp
        with True arc du uv uS vS show ?thesis by auto
      next
        case False
        with b have "pdist st b = Some (enat n)" by simp
        with tr bs obtain a w' m where a: "pprev st b = Some (Some a)" "E a b w'"
          "pdist st a = Some (enat m)" "n = m + w'" "a \<in> S" "b \<in> S \<longrightarrow> rk a < rk b"
          unfolding treeOK_def by blast
        from a(5) vS have "a \<noteq> v" by blast
        with a False show ?thesis by auto
      qed
    qed
    have c9: "\<forall>a v w. E a v w \<longrightarrow> v \<in> dom (pdist ?st)" using dm by auto
    have "dinv E s ps S rk (\<lambda>a b c. Cl a b c \<or> (a = u \<and> b = v \<and> c = w)) ?st"
      unfolding dinv_def using c1 c2 c3 c4 c5 c6 c7 c8 c9 by blast
    moreover have "pdist ?st u = Some (enat du)" using du uv by simp
    ultimately show ?thesis unfolding eq by blast
  qed
qed

lemma foldl_plainRelax_dinv:
  assumes "dinv E s ps S rk Cl st"
    and "u \<in> S" and "pdist st u = Some (enat du)"
    and "\<And>a b c. Cl a b c \<Longrightarrow> a \<in> S"
    and "\<And>v w. (v, w) \<in> set ns \<Longrightarrow> nodeIsHazardous v hs \<Longrightarrow> \<not> E u v w"
    and "\<And>v w. (v, w) \<in> set ns \<Longrightarrow> \<not> nodeIsHazardous v hs \<Longrightarrow> E u v w"
  shows "dinv E s ps S rk (\<lambda>a b c. Cl a b c \<or> (a = u \<and> (b, c) \<in> set ns)) (foldl (plainRelax hs u du) st ns)"
  using assms
proof (induction ns arbitrary: st Cl)
  case Nil
  then show ?case by simp
next
  case (Cons e ns)
  obtain v w where e: "e = (v, w)" by (cases e)
  have step: "dinv E s ps S rk (\<lambda>a b c. Cl a b c \<or> (a = u \<and> b = v \<and> c = w)) (plainRelax hs u du st (v, w))
         \<and> pdist (plainRelax hs u du st (v, w)) u = Some (enat du)"
    using Cons.prems e by (intro plainRelax_dinv) auto
  have "dinv E s ps S rk (\<lambda>a b c. (Cl a b c \<or> (a = u \<and> b = v \<and> c = w)) \<or> (a = u \<and> (b, c) \<in> set ns))
     (foldl (plainRelax hs u du) (plainRelax hs u du st (v, w)) ns)"
    using step Cons.prems(2,4,5,6) by (intro Cons.IH) auto
  then have "dinv E s ps S rk (\<lambda>a b c. Cl a b c \<or> (a = u \<and> (b, c) \<in> set (e # ns)))
     (foldl (plainRelax hs u du) (plainRelax hs u du st (v, w)) ns)"
    by (rule dinv_weaken) (auto simp: e)
  then show ?case by (simp add: e)
qed

section \<open>Lemmas: one round of the loop\<close>

lemma walkR_last_arc:
  assumes "walkR E s ss" "ss \<noteq> []"
  shows "\<exists>a w. E a (walkEnd s ss) w"
proof -
  from assms(2) obtain ss' e where "ss = ss' @ [e]" by (cases ss rule: rev_cases) auto
  moreover obtain v w where "e = (v, w)" by (cases e)
  ultimately show ?thesis using assms(1) by (auto simp: walkR_append walkEnd_append)
qed

lemma treeOKD:
  "treeOK E s S rk st \<Longrightarrow> v \<noteq> s \<Longrightarrow> pdist st v = Some (enat n) \<Longrightarrow>
     \<exists>a w m. pprev st v = Some (Some a) \<and> E a v w \<and> pdist st a = Some (enat m)
        \<and> n = m + w \<and> a \<in> S \<and> (v \<in> S \<longrightarrow> rk a < rk v)"
  unfolding treeOK_def by blast

lemma stale_dinv:
  assumes inv: "dinv E s ps S rk Cl st"
    and sub: "set q' \<subseteq> set (ppq st)"
    and keep: "\<And>x. x \<in> set (ppq st) \<Longrightarrow> x \<noteq> (u, du) \<Longrightarrow> x \<in> set q'"
    and x: "pdist st u = Some x" "x < enat du"
  shows "dinv E s ps S rk Cl (st\<lparr>ppq := q'\<rparr>)"
proof -
  have cov: "(v, n) \<in> set q'" if "pdist st v = Some (enat n)" "v \<notin> S" for v n
  proof -
    from inv that have "(v, n) \<in> set (ppq st)" unfolding dinv_def by blast
    moreover have "(v, n) \<noteq> (u, du)" using that(1) x by auto
    ultimately show ?thesis by (rule keep)
  qed
  have tr: "treeOK E s S rk (st\<lparr>ppq := q'\<rparr>)"
    using inv unfolding dinv_def treeOK_def by simp
  have qs: "\<forall>x \<in> set q'. \<exists>y. pdist st (fst x) = Some y \<and> y \<le> enat (snd x)"
    using inv sub unfolding dinv_def by blast
  have "pdist st s = Some 0" "pprev st s = ps" "sound E s (pdist st)"
    "\<forall>u\<in>S. optimal E s (pdist st) u"
    "\<forall>a v w. Cl a v w \<longrightarrow> E a v w \<longrightarrow> relaxed (pdist st) a v w"
    "\<forall>a v w. E a v w \<longrightarrow> v \<in> dom (pdist st)"
    using inv unfolding dinv_def by blast+
  then show ?thesis
    unfolding dinv_def using cov tr qs by (simp del: split_paired_All)
qed

lemma settle_dinv:
  assumes inv: "dinv E s ps S rk (\<lambda>a v w. a \<in> S) st"
    and low: "\<forall>x\<in>set (ppq st). du \<le> snd x"
    and du: "pdist st u = Some (enat du)"
    and sub: "set q' \<subseteq> set (ppq st)"
    and keep: "\<And>x. x \<in> set (ppq st) \<Longrightarrow> x \<noteq> (u, du) \<Longrightarrow> x \<in> set q'"
  shows "\<exists>rk'. dinv E s ps (insert u S) rk' (\<lambda>a v w. a \<in> S) (st\<lparr>ppq := q'\<rparr>)"
proof -
  let ?st = "st\<lparr>ppq := q'\<rparr>"
  from inv have tr: "treeOK E s S rk st" unfolding dinv_def by blast
  have optu: "optimal E s (pdist st) u"
    unfolding optimal_def
  proof (intro exI conjI allI impI)
    show "pdist st u = Some (enat du)" by (rule du)
    fix ss assume a: "walkR E s ss \<and> walkEnd s ss = u"
    then have "walkR E s ss" and e: "walkEnd s ss = u" by blast+
    from frontier[OF inv low this(1)] show "du \<le> walkCost ss"
    proof
      assume "du \<le> walkCost ss" then show ?thesis .
    next
      assume "walkEnd s ss \<in> S \<and> (\<exists>n. pdist st (walkEnd s ss) = Some (enat n) \<and> n \<le> walkCost ss)"
      then obtain n where "pdist st u = Some (enat n)" "n \<le> walkCost ss" unfolding e by blast
      with du show ?thesis by simp
    qed
  qed
  have cov: "(v, n) \<in> set q'" if "pdist st v = Some (enat n)" "v \<notin> insert u S" for v n
  proof -
    from inv that have "(v, n) \<in> set (ppq st)" unfolding dinv_def by blast
    moreover have "(v, n) \<noteq> (u, du)" using that(2) by auto
    ultimately show ?thesis by (rule keep)
  qed
  have qs: "\<forall>x \<in> set q'. \<exists>y. pdist st (fst x) = Some y \<and> y \<le> enat (snd x)"
    using inv sub unfolding dinv_def by blast
  have base: "pdist st s = Some 0" "pprev st s = ps" "sound E s (pdist st)"
    "\<forall>u\<in>S. optimal E s (pdist st) u"
    "\<forall>a v w. a \<in> S \<longrightarrow> E a v w \<longrightarrow> relaxed (pdist st) a v w"
    "\<forall>a v w. E a v w \<longrightarrow> v \<in> dom (pdist st)"
    using inv unfolding dinv_def by blast+
  have opt': "\<forall>x\<in>insert u S. optimal E s (pdist st) x" using base(4) optu by blast
  have cov': "\<forall>v n. pdist st v = Some (enat n) \<longrightarrow> v \<notin> insert u S \<longrightarrow> (v, n) \<in> set q'"
    using cov by blast
  have rest: "dinv E s ps (insert u S) rk' (\<lambda>a v w. a \<in> S) ?st" if "treeOK E s (insert u S) rk' ?st" for rk'
  proof -
    have sel: "pdist ?st = pdist st" "pprev ?st = pprev st" "ppq ?st = q'" by simp_all
    show ?thesis
      unfolding dinv_def sel using base(1,2,3,5,6) opt' qs cov' that by blast
  qed
  have tree: "\<exists>rk'. treeOK E s (insert u S) rk' ?st"
  proof (cases "u \<in> S \<or> u = s")
    case True
    have "treeOK E s (insert u S) rk ?st"
      unfolding treeOK_def
    proof (intro allI impI)
      fix v n assume vs: "v \<noteq> s" and v: "pdist ?st v = Some (enat n)"
      from v have "pdist st v = Some (enat n)" by simp
      from treeOKD[OF tr vs this]
      obtain a w m where a: "pprev st v = Some (Some a)" "E a v w"
          "pdist st a = Some (enat m)" "n = m + w" "a \<in> S" "v \<in> S \<longrightarrow> rk a < rk v"
        by blast
      have "v \<in> insert u S \<longrightarrow> rk a < rk v" using a(6) True vs by blast
      with a show "\<exists>a w m. pprev ?st v = Some (Some a) \<and> E a v w \<and> pdist ?st a = Some (enat m)
           \<and> n = m + w \<and> a \<in> insert u S \<and> (v \<in> insert u S \<longrightarrow> rk a < rk v)"
        by auto
    qed
    then show ?thesis by blast
  next
    case False
    with tr du obtain a0 where a0: "pprev st u = Some (Some a0)" "a0 \<in> S"
      unfolding treeOK_def by blast
    let ?rk = "rk(u := Suc (rk a0))"
    have "treeOK E s (insert u S) ?rk ?st"
      unfolding treeOK_def
    proof (intro allI impI)
      fix v n assume vs: "v \<noteq> s" and v: "pdist ?st v = Some (enat n)"
      from v have "pdist st v = Some (enat n)" by simp
      from treeOKD[OF tr vs this]
      obtain a w m where a: "pprev st v = Some (Some a)" "E a v w"
          "pdist st a = Some (enat m)" "n = m + w" "a \<in> S" "v \<in> S \<longrightarrow> rk a < rk v"
        by blast
      have au: "a \<noteq> u" using a(5) False by blast
      have "v \<in> insert u S \<longrightarrow> ?rk a < ?rk v"
      proof
        assume "v \<in> insert u S"
        show "?rk a < ?rk v"
        proof (cases "v = u")
          case True
          with a(1) a0(1) have "a = a0" by simp
          with True au show ?thesis by simp
        next
          case False
          with \<open>v \<in> insert u S\<close> a(6) au show ?thesis by simp
        qed
      qed
      with a show "\<exists>a w m. pprev ?st v = Some (Some a) \<and> E a v w \<and> pdist ?st a = Some (enat m)
           \<and> n = m + w \<and> a \<in> insert u S \<and> (v \<in> insert u S \<longrightarrow> ?rk a < ?rk v)"
        by auto
    qed
    then show ?thesis by blast
  qed
  with rest show ?thesis by blast
qed

lemma loopInvI:
  "dinv (adjArcs adj hs) s ps S rk (\<lambda>a v w. a \<in> S) st \<Longrightarrow> loopInv adj hs s ps (Returns st)"
  unfolding loopInv_def by (simp, intro exI, assumption)

lemma plainStep_inv:
  assumes inv: "dinv (adjArcs adj hs) s ps S rk (\<lambda>a v w. a \<in> S) st"
    and ne: "ppq st \<noteq> []"
    and start: "\<not> nodeIsHazardous s hs"
    and tg: "\<And>a v w. adjArcs adj hs a v w \<Longrightarrow> adj v \<noteq> None"
  shows "loopInv adj hs s ps (plainStep adj hs st)"
proof -
  let ?E = "adjArcs adj hs"
  define i where "i = scanMin (ppq st) 0 1"
  define u where "u = fst (ppq st ! i)"
  define du where "du = snd (ppq st ! i)"
  define q' where "q' = take i (ppq st) @ drop (Suc i) (ppq st)"
  define st1 where "st1 = st\<lparr>ppq := q'\<rparr>"
  have i: "i < length (ppq st)" unfolding i_def using ne by (rule scanMin_first)
  have low: "\<forall>x\<in>set (ppq st). du \<le> snd x"
    unfolding du_def i_def using scanMin_first(2)[OF ne] by blast
  have mem: "(u, du) \<in> set (ppq st)" "ppq st ! i = (u, du)"
    unfolding u_def du_def using i by simp_all
  have sub: "set q' \<subseteq> set (ppq st)" unfolding q'_def by (rule set_remove_nth_subset)
  have keep: "x \<in> set q'" if "x \<in> set (ppq st)" "x \<noteq> (u, du)" for x
    unfolding q'_def using that i mem(2) by (intro in_set_remove_nth) auto
  have step: "plainStep adj hs st =
     (if numGreater du (pdist st u) then Returns st1
      else if nodeIsHazardous u hs then Returns st1
      else (case adj u of
              Some ns \<Rightarrow> Returns (foldl (plainRelax hs u du) st1 ns)
            | None \<Rightarrow> if inheritedKey u then Throws TypeError else Returns st1))"
    unfolding plainStep_def Let_def i_def u_def du_def q'_def st1_def by simp
  from inv mem(1) obtain y where y: "pdist st u = Some y" "y \<le> enat du"
    unfolding dinv_def by fastforce
  show ?thesis
  proof (cases "y < enat du")
    case True
    then have "dinv ?E s ps S rk (\<lambda>a v w. a \<in> S) st1"
      unfolding st1_def using y(1) by (intro stale_dinv[OF inv sub keep]) auto
    moreover have "plainStep adj hs st = Returns st1"
      using True y(1) by (simp add: step numGreater_def)
    ultimately show ?thesis by (simp add: loopInvI)
  next
    case False
    with y have du: "pdist st u = Some (enat du)" by simp
    have ng: "\<not> numGreater du (pdist st u)" using du by (simp add: numGreater_def)
    from inv du obtain ss where ss: "walkR ?E s ss" "walkEnd s ss = u"
      unfolding dinv_def sound_def by blast
    have nhu: "\<not> nodeIsHazardous u hs"
    proof (cases "ss = []")
      case True with ss start show ?thesis by simp
    next
      case False
      from walkR_last_arc[OF ss(1) False] ss(2) show ?thesis by (auto simp: adjArcs_def)
    qed
    from settle_dinv[OF inv low du sub keep]
    obtain rk' where st1: "dinv ?E s ps (insert u S) rk' (\<lambda>a v w. a \<in> S) st1"
      unfolding st1_def by blast
    have du1: "pdist st1 u = Some (enat du)" using du by (simp add: st1_def)
    show ?thesis
    proof (cases "adj u")
      case None
      have "dinv ?E s ps (insert u S) rk' (\<lambda>a v w. a \<in> insert u S) st1"
        using st1 by (rule dinv_weaken) (auto simp: adjArcs_def None)
      then have "loopInv adj hs s ps (Returns st1)" by (rule loopInvI)
      moreover have "u = s"
      proof (cases "ss = []")
        case True with ss show ?thesis by simp
      next
        case False
        from walkR_last_arc[OF ss(1) False] ss(2) tg None show ?thesis by blast
      qed
      ultimately show ?thesis using None ng nhu by (auto simp: step loopInv_def)
    next
      case (Some ns)
      have "dinv ?E s ps (insert u S) rk' (\<lambda>a b c. a \<in> S \<or> (a = u \<and> (b, c) \<in> set ns))
              (foldl (plainRelax hs u du) st1 ns)"
        using st1 du1 nhu Some by (intro foldl_plainRelax_dinv) (auto simp: adjArcs_def)
      then have "dinv ?E s ps (insert u S) rk' (\<lambda>a v w. a \<in> insert u S)
              (foldl (plainRelax hs u du) st1 ns)"
        by (rule dinv_weaken) (auto simp: adjArcs_def Some)
      then have "loopInv adj hs s ps (Returns (foldl (plainRelax hs u du) st1 ns))" by (rule loopInvI)
      then show ?thesis using Some ng nhu by (simp add: step)
    qed
  qed
qed

lemma plainLoop_loopInv:
  assumes init: "dinv (adjArcs adj hs) s ps {} rk (\<lambda>a v w. a \<in> {}) st0"
    and start: "\<not> nodeIsHazardous s hs"
    and tg: "\<And>a v w. adjArcs adj hs a v w \<Longrightarrow> adj v \<noteq> None"
    and w: "while_option plainRunning (\<lambda>s. case s of Returns t \<Rightarrow> plainStep adj hs t | _ \<Rightarrow> s)
              (Returns st0) = Some out"
  shows "loopInv adj hs s ps out"
proof (rule while_option_rule[where P = "loopInv adj hs s ps", OF _ w])
  show "loopInv adj hs s ps (Returns st0)"
    using init by (rule loopInvI)
next
  fix x assume "loopInv adj hs s ps x" "plainRunning x"
  then show "loopInv adj hs s ps (case x of Returns t \<Rightarrow> plainStep adj hs t | _ \<Rightarrow> x)"
    using start tg
    by (cases x) (auto simp: loopInv_def plainRunning_def intro: plainStep_inv[unfolded loopInv_def])
qed

lemma plainLoop_Throws:
  assumes init: "dinv (adjArcs adj hs) s ps {} rk (\<lambda>a v w. a \<in> {}) st0"
    and start: "\<not> nodeIsHazardous s hs"
    and tg: "\<And>a v w. adjArcs adj hs a v w \<Longrightarrow> adj v \<noteq> None"
    and res: "plainLoop adj hs st0 = Throws err"
  shows "adj s = None \<and> inheritedKey s"
proof -
  from res have "while_option plainRunning (\<lambda>s. case s of Returns t \<Rightarrow> plainStep adj hs t | _ \<Rightarrow> s)
              (Returns st0) = Some (Throws err)"
    by (auto simp: plainLoop_def split: option.splits)
  from plainLoop_loopInv[OF init start tg this] show ?thesis by (simp add: loopInv_def)
qed

lemma plainLoop_inv:
  assumes init: "dinv (adjArcs adj hs) s ps {} rk (\<lambda>a v w. a \<in> {}) st0"
    and start: "\<not> nodeIsHazardous s hs"
    and tg: "\<And>a v w. adjArcs adj hs a v w \<Longrightarrow> adj v \<noteq> None"
    and res: "plainLoop adj hs st0 = Returns st"
  shows "\<exists>S rk. dinv (adjArcs adj hs) s ps S rk (\<lambda>a v w. a \<in> S) st \<and> ppq st = []"
proof -
  let ?c = "\<lambda>s. case s of Returns t \<Rightarrow> plainStep adj hs t | _ \<Rightarrow> s"
  from res have w: "while_option plainRunning ?c (Returns st0) = Some (Returns st)"
    by (auto simp: plainLoop_def split: option.splits)
  have "loopInv adj hs s ps (Returns st)"
  proof (rule while_option_rule[where P = "loopInv adj hs s ps", OF _ w])
    show "loopInv adj hs s ps (Returns st0)"
      using init by (rule loopInvI)
  next
    fix x assume "loopInv adj hs s ps x" "plainRunning x"
    then show "loopInv adj hs s ps (?c x)"
      using start tg by (cases x) (auto simp: loopInv_def plainRunning_def intro: plainStep_inv[unfolded loopInv_def])
  qed
  moreover from while_option_stop[OF w] have "ppq st = []" by (simp add: plainRunning_def)
  ultimately show ?thesis by (auto simp: loopInv_def)
qed

section \<open>Lemmas: the adjacency map\<close>

lemma adjArcs_nbrs:
  "adjArcs adj hs u v w \<longleftrightarrow> (v, w) \<in> nbrs adj u \<and> \<not> nodeIsHazardous u hs \<and> \<not> nodeIsHazardous v hs"
  by (auto simp: adjArcs_def nbrs_def split: option.splits)

lemma foldl_plainAddEdge_Throws [simp]: "foldl (plainAddEdge hs) (Throws err) es = Throws err"
  by (induction es) (auto simp: plainAddEdge_def)

lemma foldl_plainAddEdge_Diverges [simp]: "foldl (plainAddEdge hs) Diverges es = Diverges"
  by (induction es) (auto simp: plainAddEdge_def)

lemma plainAddEdge_Returns:
  assumes "plainAddEdge hs (Returns adj1) (a, b, w) = Returns adj"
  shows "dom adj = dom adj1"
    and "nbrs adj u = nbrs adj1 u \<union>
           {(v, c). ((u, v, c) = (a, b, w) \<or> (v, u, c) = (a, b, w))
                    \<and> \<not> nodeIsHazardous a hs \<and> \<not> nodeIsHazardous b hs}"
    and "\<not> nodeIsHazardous a hs \<Longrightarrow> \<not> nodeIsHazardous b hs \<Longrightarrow> a \<in> dom adj1 \<and> b \<in> dom adj1"
  using assms
  by (auto simp: plainAddEdge_def nbrs_def Let_def split: if_splits option.splits)

lemma plainAddEdge_Returns_pre:
  "plainAddEdge hs acc e = Returns adj \<Longrightarrow> \<exists>adj1. acc = Returns adj1"
  by (cases acc) (auto simp: plainAddEdge_def)

lemma foldl_plainAddEdge_Returns:
  assumes "foldl (plainAddEdge hs) (Returns adj0) es = Returns adj"
  shows "dom adj = dom adj0 \<and>
         (\<forall>u. nbrs adj u = nbrs adj0 u \<union>
            {(v, c). ((u, v, c) \<in> set es \<or> (v, u, c) \<in> set es)
                     \<and> \<not> nodeIsHazardous u hs \<and> \<not> nodeIsHazardous v hs}) \<and>
         (\<forall>(a, b, w) \<in> set es. \<not> nodeIsHazardous a hs \<longrightarrow> \<not> nodeIsHazardous b hs
              \<longrightarrow> a \<in> dom adj0 \<and> b \<in> dom adj0)"
  using assms
proof (induction es arbitrary: adj rule: rev_induct)
  case Nil
  then show ?case by simp
next
  case (snoc e es)
  obtain a b w where e: "e = (a, b, w)" by (cases e)
  from snoc.prems have "plainAddEdge hs (foldl (plainAddEdge hs) (Returns adj0) es) e = Returns adj" by simp
  then obtain adj1 where adj1: "foldl (plainAddEdge hs) (Returns adj0) es = Returns adj1"
    and last: "plainAddEdge hs (Returns adj1) (a, b, w) = Returns adj"
    using plainAddEdge_Returns_pre e by metis
  note IH = snoc.IH[OF adj1]
  note A = plainAddEdge_Returns[OF last]
  have 1: "dom adj = dom adj0" using A(1) IH by simp
  have 2: "nbrs adj u = nbrs adj0 u \<union>
            {(v, c). ((u, v, c) \<in> set (es @ [e]) \<or> (v, u, c) \<in> set (es @ [e]))
                     \<and> \<not> nodeIsHazardous u hs \<and> \<not> nodeIsHazardous v hs}" for u
  proof -
    have "nbrs adj1 u = nbrs adj0 u \<union>
            {(v, c). ((u, v, c) \<in> set es \<or> (v, u, c) \<in> set es)
                     \<and> \<not> nodeIsHazardous u hs \<and> \<not> nodeIsHazardous v hs}"
      using IH by blast
    then show ?thesis unfolding A(2)[of u] e by auto
  qed
  have 3: "\<forall>(a, b, w) \<in> set (es @ [e]). \<not> nodeIsHazardous a hs \<longrightarrow> \<not> nodeIsHazardous b hs
              \<longrightarrow> a \<in> dom adj0 \<and> b \<in> dom adj0"
    using IH A(3) e by auto
  from 1 2 3 show ?case by blast
qed

lemma plainAdjacency_Returns:
  assumes "plainAdjacency fd hs = Returns adj"
  shows "dom adj = set (rooms fd) \<union> set (exits fd)"
    and "adjArcs adj hs = arc fd hs"
    and "\<And>a b w. arc fd hs a b w \<Longrightarrow> a \<in> set (rooms fd) \<union> set (exits fd) \<and> b \<in> set (rooms fd) \<union> set (exits fd)"
proof -
  let ?adj0 = "\<lambda>k. if k \<in> set (rooms fd @ exits fd) then Some [] else (None :: (string \<times> nat) list option)"
  from assms have f: "foldl (plainAddEdge hs) (Returns ?adj0) (edges fd) = Returns adj"
    by (simp add: plainAdjacency_def computeCoords_def foldl_const_upd)
  note F = foldl_plainAddEdge_Returns[OF f]
  have d0: "dom ?adj0 = set (rooms fd) \<union> set (exits fd)" by (auto simp: dom_def)
  show "dom adj = set (rooms fd) \<union> set (exits fd)" using F d0 by simp
  have n0: "nbrs ?adj0 u = {}" for u by (simp add: nbrs_def)
  show "adjArcs adj hs = arc fd hs"
  proof (intro ext)
    fix u v w
    have "nbrs adj u = {(v, c). ((u, v, c) \<in> set (edges fd) \<or> (v, u, c) \<in> set (edges fd))
                     \<and> \<not> nodeIsHazardous u hs \<and> \<not> nodeIsHazardous v hs}"
      using F n0 by simp
    then show "adjArcs adj hs u v w = arc fd hs u v w"
      by (auto simp: adjArcs_nbrs arc_def)
  qed
  show "a \<in> set (rooms fd) \<union> set (exits fd) \<and> b \<in> set (rooms fd) \<union> set (exits fd)"
    if "arc fd hs a b w" for a b w
    using that F d0 unfolding arc_def by fastforce
qed

section \<open>Lemmas: termination of the loop\<close>

lemma improve_distLess:
  assumes fin: "finite (dom ds)" and x: "ds v = Some x" and lt: "enat n < x"
  shows "(ds(v \<mapsto> enat n), ds) \<in> distLess"
proof -
  let ?ds = "ds(v \<mapsto> enat n)"
  let ?f = "\<lambda>d u. case d u of Some (enat k) \<Rightarrow> k | _ \<Rightarrow> (0::nat)"
  have dm: "dom ?ds = dom ds" using x by auto
  have v: "v \<in> dom ds" using x by auto
  show ?thesis
  proof (cases x)
    case (enat k)
    have "{u \<in> dom ?ds. ?ds u = Some \<infinity>} = {u \<in> dom ds. ds u = Some \<infinity>}"
      using x enat by auto
    then have 1: "infCount ?ds = infCount ds" by (simp add: infCount_def)
    have s1: "finSum ?ds = ?f ?ds v + (\<Sum>u \<in> dom ds - {v}. ?f ?ds u)"
      unfolding finSum_def dm using fin v by (rule sum.remove)
    have s2: "(\<Sum>u \<in> dom ds - {v}. ?f ?ds u) = (\<Sum>u \<in> dom ds - {v}. ?f ds u)"
      by (rule sum.cong) auto
    have s3: "?f ?ds v = n" by simp
    have a: "finSum ?ds = n + (\<Sum>u \<in> dom ds - {v}. ?f ds u)"
      unfolding s1 s2 s3 by (rule refl)
    have "finSum ds = ?f ds v + (\<Sum>u \<in> dom ds - {v}. ?f ds u)"
      unfolding finSum_def using fin v by (rule sum.remove)
    then have b: "finSum ds = k + (\<Sum>u \<in> dom ds - {v}. ?f ds u)" using x enat by simp
    from lt enat have "n < k" by simp
    with a b have "finSum ?ds < finSum ds" by simp
    with 1 show ?thesis by (simp add: distLess_def)
  next
    case infinity
    let ?A = "{u \<in> dom ds. ds u = Some \<infinity>}"
    have e: "{u \<in> dom ?ds. ?ds u = Some \<infinity>} = ?A - {v}"
      by auto
    have "v \<in> ?A" using x infinity by auto
    moreover have "finite ?A" using fin by simp
    ultimately have "card (?A - {v}) < card ?A" by (intro card_Diff1_less)
    then have "infCount ?ds < infCount ds"
      unfolding infCount_def e .
    then show ?thesis by (simp add: distLess_def)
  qed
qed

lemma trans_distLess: "trans distLess"
  unfolding distLess_def by (intro trans_inv_image trans_lex_prod trans_less_than)

lemma plainRelax_progress:
  assumes "finite (dom (pdist st))"
  shows "dom (pdist (plainRelax hs u du st e)) = dom (pdist st)
         \<and> (plainRelax hs u du st e = st \<or> (pdist (plainRelax hs u du st e), pdist st) \<in> distLess)"
proof -
  obtain v w where e: "e = (v, w)" by (cases e)
  show ?thesis
  proof (cases "nodeIsHazardous v hs \<or> \<not> numLess (du + w) (pdist st v)")
    case True
    then show ?thesis unfolding e by (simp add: plainRelax_unchanged)
  next
    case False
    then obtain x where x: "pdist st v = Some x" "enat (du + w) < x"
      by (auto simp: numLess_def split: option.splits)
    have eq: "plainRelax hs u du st (v, w) =
       st\<lparr>pdist := (pdist st)(v \<mapsto> enat (du + w)), pprev := (pprev st)(v \<mapsto> Some u),
          ppq := ppq st @ [(v, du + w)]\<rparr>"
      using False by (intro plainRelax_changed) auto
    have "((pdist st)(v \<mapsto> enat (du + w)), pdist st) \<in> distLess"
      using assms x by (rule improve_distLess)
    moreover have "dom ((pdist st)(v \<mapsto> enat (du + w))) = dom (pdist st)" using x by auto
    ultimately show ?thesis unfolding e eq by simp
  qed
qed

lemma foldl_plainRelax_progress:
  assumes "finite (dom (pdist st))"
  shows "dom (pdist (foldl (plainRelax hs u du) st ns)) = dom (pdist st)
         \<and> (foldl (plainRelax hs u du) st ns = st
              \<or> (pdist (foldl (plainRelax hs u du) st ns), pdist st) \<in> distLess)"
  using assms
proof (induction ns arbitrary: st)
  case Nil
  then show ?case by simp
next
  case (Cons e ns)
  let ?st1 = "plainRelax hs u du st e"
  from plainRelax_progress[OF Cons.prems, of hs u du e]
  have d1: "dom (pdist ?st1) = dom (pdist st)"
    and p1: "?st1 = st \<or> (pdist ?st1, pdist st) \<in> distLess" by blast+
  from d1 Cons.prems have "finite (dom (pdist ?st1))" by simp
  from Cons.IH[OF this]
  have d2: "dom (pdist (foldl (plainRelax hs u du) ?st1 ns)) = dom (pdist ?st1)"
    and p2: "foldl (plainRelax hs u du) ?st1 ns = ?st1
       \<or> (pdist (foldl (plainRelax hs u du) ?st1 ns), pdist ?st1) \<in> distLess" by blast+
  have "foldl (plainRelax hs u du) ?st1 ns = st
       \<or> (pdist (foldl (plainRelax hs u du) ?st1 ns), pdist st) \<in> distLess"
    using p1 p2 trans_distLess by (metis transD)
  with d1 d2 show ?case by simp
qed

lemma plainStep_progress:
  assumes fin: "finite (dom (pdist st))" and ne: "ppq st \<noteq> []"
  shows "(plainStep adj hs st, Returns st) \<in> loopLess
         \<and> (\<forall>st'. plainStep adj hs st = Returns st' \<longrightarrow> dom (pdist st') = dom (pdist st))"
proof -
  define i where "i = scanMin (ppq st) 0 1"
  define u where "u = fst (ppq st ! i)"
  define du where "du = snd (ppq st ! i)"
  define st1 where "st1 = st\<lparr>ppq := take i (ppq st) @ drop (Suc i) (ppq st)\<rparr>"
  have i: "i < length (ppq st)" unfolding i_def using ne by (rule scanMin_first)
  have step: "plainStep adj hs st =
     (if numGreater du (pdist st u) then Returns st1
      else if nodeIsHazardous u hs then Returns st1
      else (case adj u of
              Some ns \<Rightarrow> Returns (foldl (plainRelax hs u du) st1 ns)
            | None \<Rightarrow> if inheritedKey u then Throws TypeError else Returns st1))"
    unfolding plainStep_def Let_def i_def u_def du_def st1_def by simp
  have len: "length (ppq st1) < length (ppq st)" unfolding st1_def using i by simp
  have d1: "pdist st1 = pdist st" by (simp add: st1_def)
  have r1: "(Returns st1, Returns st) \<in> loopLess"
    using len d1 by (simp add: loopLess_def loopMeasure_def)
  have th: "(Throws TypeError, Returns st) \<in> loopLess"
    using ne by (auto simp: loopLess_def loopMeasure_def)
  have rf: "(Returns (foldl (plainRelax hs u du) st1 ns), Returns st) \<in> loopLess
            \<and> dom (pdist (foldl (plainRelax hs u du) st1 ns)) = dom (pdist st)" for ns
  proof -
    from fin d1 have "finite (dom (pdist st1))" by simp
    from foldl_plainRelax_progress[OF this, of hs u du ns]
    have d: "dom (pdist (foldl (plainRelax hs u du) st1 ns)) = dom (pdist st1)"
      and p: "foldl (plainRelax hs u du) st1 ns = st1
        \<or> (pdist (foldl (plainRelax hs u du) st1 ns), pdist st1) \<in> distLess" by blast+
    from p have "(Returns (foldl (plainRelax hs u du) st1 ns), Returns st) \<in> loopLess"
    proof
      assume "foldl (plainRelax hs u du) st1 ns = st1"
      with r1 show ?thesis by simp
    next
      assume "(pdist (foldl (plainRelax hs u du) st1 ns), pdist st1) \<in> distLess"
      then show ?thesis
        unfolding d1 by (auto simp: loopLess_def loopMeasure_def distLess_def)
    qed
    with d d1 show ?thesis by simp
  qed
  show ?thesis
    unfolding step using r1 th rf d1 by (auto split: option.splits)
qed

lemma plainLoop_terminates:
  assumes "finite (dom (pdist st0))"
  shows "plainLoop adj hs st0 \<noteq> Diverges"
    and "plainLoop adj hs st0 = Returns st \<Longrightarrow> dom (pdist st) = dom (pdist st0)"
proof -
  let ?c = "\<lambda>s. case s of Returns t \<Rightarrow> plainStep adj hs t | _ \<Rightarrow> s"
  let ?P = "\<lambda>s. case s of Returns t \<Rightarrow> dom (pdist t) = dom (pdist st0) | _ \<Rightarrow> True"
  have stepP: "?P (?c s)" and stepL: "(?c s, s) \<in> loopLess" if "?P s" "plainRunning s" for s
  proof -
    from that obtain t where t: "s = Returns t" "ppq t \<noteq> []" "dom (pdist t) = dom (pdist st0)"
      by (cases s) (auto simp: plainRunning_def)
    with assms have "finite (dom (pdist t))" by simp
    from plainStep_progress[OF this t(2), of adj hs] t
    show "?P (?c s)" "(?c s, s) \<in> loopLess" by (auto split: outcome.splits)
  qed
  have "wf loopLess" unfolding loopLess_def by (intro wf_inv_image wf_lex_prod wf_less_than)
  then have "wf {(t, s). (?P s \<and> plainRunning s) \<and> t = ?c s}"
    by (rule wf_subset) (use stepL in auto)
  from wf_while_option_Some[OF this, of "Returns st0"] stepP
  obtain t where t: "while_option plainRunning ?c (Returns st0) = Some t" by auto
  have "?P t"
    by (rule while_option_rule[where P = ?P, OF _ t]) (use stepP in auto)
  moreover from while_option_stop[OF t] have "t \<noteq> Diverges \<or> True" by simp
  have nd: "t \<noteq> Diverges"
  proof -
    have "(case s of Diverges \<Rightarrow> False | _ \<Rightarrow> True)" if "s = t" for s
      unfolding that
    proof (rule while_option_rule[where P = "\<lambda>s. case s of Diverges \<Rightarrow> False | _ \<Rightarrow> True", OF _ t])
      fix s assume "case s of Diverges \<Rightarrow> False | _ \<Rightarrow> True" "plainRunning s"
      then obtain r where r: "s = Returns r" by (cases s) (auto simp: plainRunning_def)
      show "case ?c s of Diverges \<Rightarrow> False | _ \<Rightarrow> True"
        unfolding r by (simp add: plainStep_def Let_def split: option.splits)
    qed simp
    then show ?thesis by (cases t) auto
  qed
  show "plainLoop adj hs st0 \<noteq> Diverges"
    using t nd by (simp add: plainLoop_def)
  show "dom (pdist st) = dom (pdist st0)" if "plainLoop adj hs st0 = Returns st"
    using that t \<open>?P t\<close> by (simp add: plainLoop_def)
qed

section \<open>Lemmas: what the search on finite maps computes\<close>

lemma declared_eq: "declared fd = set (rooms fd) \<union> set (exits fd)"
  by (simp add: declared_def)

lemma plainSearch_unfold:
  "plainSearch fd s hs =
     (if nodeIsHazardous s hs then Returns (dist0 fd, prev0 fd)
      else (case plainAdjacency fd hs of
              Returns adj \<Rightarrow>
                (case plainLoop adj hs (initState fd s) of
                   Returns st \<Rightarrow> Returns (pdist st, pprev st)
                 | Throws err \<Rightarrow> Throws err
                 | Diverges \<Rightarrow> Diverges)
            | Throws err \<Rightarrow> Throws err
            | Diverges \<Rightarrow> Diverges))"
  unfolding plainSearch_def computeCoords_def Let_def foldl_const_upd dist0_def prev0_def
    declared_def initState_def
  by simp

lemma init_dinv:
  assumes tg: "\<And>a v w. E a v w \<Longrightarrow> v \<in> declared fd"
  shows "dinv E s (prev0 fd s) {} rk (\<lambda>a v w. a \<in> {}) (initState fd s)"
proof -
  have fin: "v = s \<and> n = 0" if "pdist (initState fd s) v = Some (enat n)" for v n
    using that by (auto simp: initState_def dist0_def enat_0_iff split: if_splits)
  have 1: "sound E s (pdist (initState fd s))"
    unfolding sound_def
  proof (intro allI impI)
    fix v n assume "pdist (initState fd s) v = Some (enat n)"
    from fin[OF this] have "walkR E s [] \<and> walkEnd s [] = v \<and> walkCost [] = n" by simp
    then show "\<exists>ss. walkR E s ss \<and> walkEnd s ss = v \<and> walkCost ss = n" by blast
  qed
  have 2: "treeOK E s {} rk (initState fd s)"
    unfolding treeOK_def using fin by blast
  have 3: "\<forall>v n. pdist (initState fd s) v = Some (enat n) \<longrightarrow> v \<notin> {} \<longrightarrow> (v, n) \<in> set (ppq (initState fd s))"
  proof (intro allI impI)
    fix v n assume "pdist (initState fd s) v = Some (enat n)"
    from fin[OF this] show "(v, n) \<in> set (ppq (initState fd s))" by (simp add: initState_def)
  qed
  have 4: "\<forall>x \<in> set (ppq (initState fd s)). \<exists>y. pdist (initState fd s) (fst x) = Some y \<and> y \<le> enat (snd x)"
    by (simp add: initState_def)
  have 5: "\<forall>a v w. E a v w \<longrightarrow> v \<in> dom (pdist (initState fd s))"
    using tg by (auto simp: initState_def dist0_def)
  have 6: "pdist (initState fd s) s = Some 0" "pprev (initState fd s) s = prev0 fd s"
    by (simp_all add: initState_def)
  have 7: "\<forall>u\<in>{}. optimal E s (pdist (initState fd s)) u" by simp
  have 8: "\<forall>a v w. a \<in> {} \<longrightarrow> E a v w \<longrightarrow> relaxed (pdist (initState fd s)) a v w" by simp
  show ?thesis
    unfolding dinv_def by (intro conjI 1 2 3 4 5 6 7 8)
qed

lemma dinvD:
  assumes "dinv E s ps S rk Cl st"
  shows "pdist st s = Some 0" and "pprev st s = ps" and "sound E s (pdist st)"
    and "treeOK E s S rk st"
    and "\<And>v n. pdist st v = Some (enat n) \<Longrightarrow> v \<notin> S \<Longrightarrow> (v, n) \<in> set (ppq st)"
  using assms unfolding dinv_def by blast+

lemma plainSearch_Returns_loop:
  assumes res: "plainSearch fd s hs = Returns (dst, prv)" and start: "\<not> nodeIsHazardous s hs"
  shows "\<exists>adj st. plainAdjacency fd hs = Returns adj
           \<and> plainLoop adj hs (initState fd s) = Returns st \<and> dst = pdist st \<and> prv = pprev st"
proof (cases "plainAdjacency fd hs")
  case (Returns adj)
  show ?thesis
  proof (cases "plainLoop adj hs (initState fd s)")
    case (Returns st)
    with \<open>plainAdjacency fd hs = Returns adj\<close> res start show ?thesis
      by (simp add: plainSearch_unfold)
  next
    case (Throws err)
    with \<open>plainAdjacency fd hs = Returns adj\<close> res start show ?thesis
      by (simp add: plainSearch_unfold)
  next
    case Diverges
    with \<open>plainAdjacency fd hs = Returns adj\<close> res start show ?thesis
      by (simp add: plainSearch_unfold)
  qed
next
  case (Throws err)
  with res start show ?thesis by (simp add: plainSearch_unfold)
next
  case Diverges
  with res start show ?thesis by (simp add: plainSearch_unfold)
qed

lemma plainSearch_spec:
  assumes res: "plainSearch fd s hs = Returns (dst, prv)" and start: "\<not> nodeIsHazardous s hs"
  shows "dst s = Some 0"
    and "prv s = prev0 fd s"
    and "dom dst = insert s (declared fd)"
    and "\<And>a b w. arc fd hs a b w \<Longrightarrow> a \<in> declared fd \<and> b \<in> declared fd"
    and "\<And>v n. dst v = Some (enat n) \<Longrightarrow>
           \<exists>ss. walkR (arc fd hs) s ss \<and> walkEnd s ss = v \<and> walkCost ss = n"
    and "\<And>ss. walkR (arc fd hs) s ss \<Longrightarrow>
           \<exists>n. dst (walkEnd s ss) = Some (enat n) \<and> n \<le> walkCost ss"
    and "\<exists>rk. prevTree (arc fd hs) s dst prv rk"
proof -
  from plainSearch_Returns_loop[OF res start]
  obtain adj st where adj: "plainAdjacency fd hs = Returns adj"
    and loop: "plainLoop adj hs (initState fd s) = Returns st"
    and eq: "dst = pdist st" "prv = pprev st"
    by blast
  note B = plainAdjacency_Returns[OF adj, folded declared_eq]
  show decl: "a \<in> declared fd \<and> b \<in> declared fd" if "arc fd hs a b w" for a b w
    using B(3)[OF that] .
  have tg: "adj v \<noteq> None" if "adjArcs adj hs a v w" for a v w
  proof -
    from that have "arc fd hs a v w" unfolding B(2) .
    from decl[OF this] have "v \<in> dom adj" unfolding B(1) by simp
    then show ?thesis by blast
  qed
  have init: "dinv (adjArcs adj hs) s (prev0 fd s) {} (\<lambda>_. 0) (\<lambda>a v w. a \<in> {}) (initState fd s)"
    unfolding B(2) by (rule init_dinv) (use decl in blast)
  have "\<exists>S rk. dinv (adjArcs adj hs) s (prev0 fd s) S rk (\<lambda>a v w. a \<in> S) st \<and> ppq st = []"
    by (rule plainLoop_inv[OF init start _ loop]) (erule tg)
  then obtain S rk where inv: "dinv (arc fd hs) s (prev0 fd s) S rk (\<lambda>a v w. a \<in> S) st" and emp: "ppq st = []"
    unfolding B(2) by blast
  note D = dinvD[OF inv]
  show "dst s = Some 0" unfolding eq by (rule D(1))
  show "prv s = prev0 fd s" unfolding eq by (rule D(2))
  have d0: "dom (pdist (initState fd s)) = insert s (declared fd)"
    by (auto simp: initState_def dist0_def split: if_splits)
  then have "finite (dom (pdist (initState fd s)))" by (simp add: declared_def)
  from plainLoop_terminates(2)[OF this loop] d0
  show "dom dst = insert s (declared fd)"
    unfolding eq by simp
  show "\<exists>ss. walkR (arc fd hs) s ss \<and> walkEnd s ss = v \<and> walkCost ss = n"
    if "dst v = Some (enat n)" for v n
    using D(3) that unfolding sound_def eq by blast
  show "\<exists>n. dst (walkEnd s ss) = Some (enat n) \<and> n \<le> walkCost ss"
    if "walkR (arc fd hs) s ss" for ss
  proof -
    have "\<forall>x\<in>set (ppq st). Suc (walkCost ss) \<le> snd x" using emp by simp
    from frontier[OF inv this that] show ?thesis
    proof
      assume "Suc (walkCost ss) \<le> walkCost ss"
      then show ?thesis by simp
    next
      assume "walkEnd s ss \<in> S \<and> (\<exists>n. pdist st (walkEnd s ss) = Some (enat n) \<and> n \<le> walkCost ss)"
      then show ?thesis unfolding eq by blast
    qed
  qed
  have inS: "v \<in> S" if "pdist st v = Some (enat n)" for v n
  proof (rule ccontr)
    assume "v \<notin> S"
    from D(5)[OF that this] emp show False by simp
  qed
  have tree: "\<forall>v n. v \<noteq> s \<longrightarrow> dst v = Some (enat n) \<longrightarrow>
           (\<exists>a w m. prv v = Some (Some a) \<and> arc fd hs a v w \<and> dst a = Some (enat m)
              \<and> n = m + w \<and> rk a < rk v)"
  proof (intro allI impI)
    fix v n assume vs: "v \<noteq> s" and "dst v = Some (enat n)"
    then have v: "pdist st v = Some (enat n)" by (simp add: eq)
    from treeOKD[OF D(4) vs v] inS[OF v]
    show "\<exists>a w m. prv v = Some (Some a) \<and> arc fd hs a v w \<and> dst a = Some (enat m)
              \<and> n = m + w \<and> rk a < rk v"
      unfolding eq by blast
  qed
  from tree have "prevTree (arc fd hs) s dst prv rk" unfolding prevTree_def .
  then show "\<exists>rk. prevTree (arc fd hs) s dst prv rk" by blast
qed

lemma plainSearch_hazardous_start:
  assumes "nodeIsHazardous s hs"
  shows "plainSearch fd s hs = Returns (dist0 fd, prev0 fd)"
  using assms by (simp add: plainSearch_unfold)

section \<open>Lemmas: predecessor chains\<close>

lemma walkR_first_arc:
  assumes "walkR E s ss" "ss \<noteq> []"
  shows "\<exists>v w. E s v w"
proof -
  from assms(2) obtain e ss' where "ss = e # ss'" by (cases ss) auto
  moreover obtain v w where "e = (v, w)" by (cases e)
  ultimately have "E s v w" using assms(1) by simp
  then show ?thesis by blast
qed

lemma chain_exists:
  assumes tr: "prevTree E s dst prv rk" and ps: "prv s = Some None" and s0: "dst s = Some 0"
  shows "dst v = Some (enat n) \<Longrightarrow>
     \<exists>ss. chain prv v (s # map fst ss) \<and> walkR E s ss \<and> walkEnd s ss = v \<and> walkCost ss = n
        \<and> (\<forall>x \<in> set (s # map fst ss). (\<exists>k. dst x = Some (enat k)) \<and> (x \<noteq> v \<longrightarrow> rk x < rk v))
        \<and> distinct (s # map fst ss)"
proof (induction "rk v" arbitrary: v n rule: less_induct)
  case less
  show ?case
  proof (cases "v = s")
    case True
    with less.prems s0 have n0: "n = 0" by (simp add: enat_0_iff)
    have c: "chain prv v [s]" unfolding True using ps by (rule chain_start)
    have k: "\<exists>k. dst s = Some (enat k)" using less.prems True by blast
    have "chain prv v (s # map fst []) \<and> walkR E s [] \<and> walkEnd s [] = v \<and> walkCost [] = n
        \<and> (\<forall>x \<in> set (s # map fst []). (\<exists>k. dst x = Some (enat k)) \<and> (x \<noteq> v \<longrightarrow> rk x < rk v))
        \<and> distinct (s # map fst [])"
      using c k n0 True by simp
    then show ?thesis by blast
  next
    case False
    with tr less.prems obtain a w m where a: "prv v = Some (Some a)" "E a v w"
        "dst a = Some (enat m)" "n = m + w" "rk a < rk v"
      unfolding prevTree_def by blast
    from less.hyps[OF a(5) a(3)] obtain ss where ss: "chain prv a (s # map fst ss)"
        "walkR E s ss" "walkEnd s ss = a" "walkCost ss = m"
        "\<forall>x \<in> set (s # map fst ss). (\<exists>k. dst x = Some (enat k)) \<and> (x \<noteq> a \<longrightarrow> rk x < rk a)"
        "distinct (s # map fst ss)"
      by blast
    let ?ss = "ss @ [(v, w)]"
    have lt: "rk x < rk v" if "x \<in> set (s # map fst ss)" for x
      using ss(5) that a(5) by (cases "x = a") (auto intro: less_trans)
    have 1: "chain prv v (s # map fst ?ss)"
      using chain_step[OF a(1) ss(1)] by simp
    have 2: "walkR E s ?ss" "walkEnd s ?ss = v" "walkCost ?ss = n"
      using ss a by (simp_all add: walkR_append walkEnd_append)
    have 3: "\<forall>x \<in> set (s # map fst ?ss). (\<exists>k. dst x = Some (enat k)) \<and> (x \<noteq> v \<longrightarrow> rk x < rk v)"
    proof
      fix x assume "x \<in> set (s # map fst ?ss)"
      then consider "x = v" | "x \<in> set (s # map fst ss)" by auto
      then show "(\<exists>k. dst x = Some (enat k)) \<and> (x \<noteq> v \<longrightarrow> rk x < rk v)"
      proof cases
        case 1 with less.prems show ?thesis by blast
      next
        case 2 with ss(5) lt show ?thesis by blast
      qed
    qed
    have "v \<notin> set (s # map fst ss)" using lt by blast
    with ss(6) have 4: "distinct (s # map fst ?ss)" by auto
    from 1 2 3 4 show ?thesis by blast
  qed
qed

section \<open>Lemmas: when the search on finite maps returns\<close>

lemma plainAddEdge_total:
  assumes "\<not> nodeIsHazardous a hs \<Longrightarrow> \<not> nodeIsHazardous b hs \<Longrightarrow> a \<in> dom adj1 \<and> b \<in> dom adj1"
  shows "\<exists>adj. plainAddEdge hs (Returns adj1) (a, b, w) = Returns adj"
  using assms by (auto simp: plainAddEdge_def Let_def split: option.splits)

lemma foldl_plainAddEdge_total:
  assumes "\<forall>(a, b, w) \<in> set es. \<not> nodeIsHazardous a hs \<longrightarrow> \<not> nodeIsHazardous b hs
             \<longrightarrow> a \<in> dom adj0 \<and> b \<in> dom adj0"
  shows "\<exists>adj. foldl (plainAddEdge hs) (Returns adj0) es = Returns adj"
  using assms
proof (induction es rule: rev_induct)
  case Nil
  then show ?case by simp
next
  case (snoc e es)
  then obtain adj1 where adj1: "foldl (plainAddEdge hs) (Returns adj0) es = Returns adj1" by auto
  obtain a b w where e: "e = (a, b, w)" by (cases e)
  from foldl_plainAddEdge_Returns[OF adj1] have "dom adj1 = dom adj0" by blast
  with snoc.prems e have "\<not> nodeIsHazardous a hs \<Longrightarrow> \<not> nodeIsHazardous b hs \<Longrightarrow> a \<in> dom adj1 \<and> b \<in> dom adj1"
    by auto
  from plainAddEdge_total[OF this, where w = w] adj1 e show ?case by simp
qed

lemma plainAdjacency_total:
  assumes "passableEdgesDeclared fd hs"
  shows "\<exists>adj. plainAdjacency fd hs = Returns adj"
proof -
  let ?adj0 = "\<lambda>k. if k \<in> set (rooms fd @ exits fd) then Some [] else (None :: (string \<times> nat) list option)"
  have d0: "dom ?adj0 = declared fd" by (auto simp: dom_def declared_def)
  have "\<exists>adj. foldl (plainAddEdge hs) (Returns ?adj0) (edges fd) = Returns adj"
    by (rule foldl_plainAddEdge_total) (use assms in \<open>unfold passableEdgesDeclared_def d0, blast\<close>)
  then show ?thesis by (simp add: plainAdjacency_def computeCoords_def foldl_const_upd)
qed

lemma plainAdjacency_Returns_passable:
  assumes "plainAdjacency fd hs = Returns adj"
  shows "passableEdgesDeclared fd hs"
  unfolding passableEdgesDeclared_def
proof (intro ballI, clarify)
  fix a b w assume "(a, b, w) \<in> set (edges fd)" "\<not> nodeIsHazardous a hs" "\<not> nodeIsHazardous b hs"
  then have "arc fd hs a b w" by (simp add: arc_def)
  from plainAdjacency_Returns(3)[OF assms this] show "a \<in> declared fd \<and> b \<in> declared fd"
    by (simp add: declared_eq)
qed

lemma scanMin_single: "scanMin [x] 0 (Suc 0) = 0"
  by (subst scanMin.simps) simp

lemma plainLoop_unknown_start:
  assumes "adj s = None" "\<not> nodeIsHazardous s hs"
  shows "plainLoop adj hs (initState fd s) =
     (if inheritedKey s then Throws TypeError else Returns ((initState fd s)\<lparr>ppq := []\<rparr>))"
proof -
  let ?c = "\<lambda>s. case s of Returns t \<Rightarrow> plainStep adj hs t | _ \<Rightarrow> s"
  have r: "plainRunning (Returns (initState fd s))" by (simp add: plainRunning_def initState_def)
  have st: "plainStep adj hs (initState fd s) =
     (if inheritedKey s then Throws TypeError else Returns ((initState fd s)\<lparr>ppq := []\<rparr>))"
  proof -
    have ng: "\<not> numGreater 0 (Some 0)" by (simp add: numGreater_def zero_enat_def)
    show ?thesis
      using assms ng by (simp add: plainStep_def initState_def scanMin_single Let_def)
  qed
  have nr: "\<not> plainRunning (if inheritedKey s then Throws TypeError else Returns ((initState fd s)\<lparr>ppq := []\<rparr>))"
    by (simp add: plainRunning_def)
  have "while_option plainRunning ?c (Returns (initState fd s)) =
     Some (if inheritedKey s then Throws TypeError else Returns ((initState fd s)\<lparr>ppq := []\<rparr>))"
    by (subst while_option_unfold, simp only: r if_True outcome.case st, subst while_option_unfold)
       (simp only: nr if_False)
  then show ?thesis by (simp add: plainLoop_def)
qed

lemma plainSearch_Returns_iff:
  "(\<exists>dst prv. plainSearch fd s hs = Returns (dst, prv)) \<longleftrightarrow>
     nodeIsHazardous s hs
     \<or> (passableEdgesDeclared fd hs \<and> (s \<in> declared fd \<or> \<not> inheritedKey s))"
proof (cases "nodeIsHazardous s hs")
  case True
  then show ?thesis by (simp add: plainSearch_unfold)
next
  case False
  show ?thesis
  proof
    assume "\<exists>dst prv. plainSearch fd s hs = Returns (dst, prv)"
    then obtain dst prv where res: "plainSearch fd s hs = Returns (dst, prv)" by blast
    from plainSearch_Returns_loop[OF res False]
    obtain adj st where adj: "plainAdjacency fd hs = Returns adj"
      and loop: "plainLoop adj hs (initState fd s) = Returns st" by blast
    have "s \<in> declared fd \<or> \<not> inheritedKey s"
    proof (rule ccontr)
      assume "\<not> (s \<in> declared fd \<or> \<not> inheritedKey s)"
      then have "s \<notin> dom adj" "inheritedKey s"
        using plainAdjacency_Returns(1)[OF adj] by (simp_all add: declared_eq)
      then have "adj s = None" by blast
      from plainLoop_unknown_start[where fd = fd and adj = adj and s = s and hs = hs, OF this False] \<open>inheritedKey s\<close> loop
      show False by simp
    qed
    with plainAdjacency_Returns_passable[OF adj] show
      "nodeIsHazardous s hs \<or> (passableEdgesDeclared fd hs \<and> (s \<in> declared fd \<or> \<not> inheritedKey s))"
      by blast
  next
    assume "nodeIsHazardous s hs \<or> (passableEdgesDeclared fd hs \<and> (s \<in> declared fd \<or> \<not> inheritedKey s))"
    with False have ped: "passableEdgesDeclared fd hs" and sd: "s \<in> declared fd \<or> \<not> inheritedKey s"
      by blast+
    from plainAdjacency_total[OF ped] obtain adj where adj: "plainAdjacency fd hs = Returns adj" by blast
    note B = plainAdjacency_Returns[OF adj, folded declared_eq]
    have tg: "adj v \<noteq> None" if "adjArcs adj hs a v w" for a v w
    proof -
      from that have "arc fd hs a v w" unfolding B(2) .
      from B(3)[OF this] have "v \<in> dom adj" unfolding B(1) by simp
      then show ?thesis by blast
    qed
    have init: "dinv (adjArcs adj hs) s (prev0 fd s) {} (\<lambda>_. 0) (\<lambda>a v w. a \<in> {}) (initState fd s)"
      unfolding B(2) by (rule init_dinv) (use B(3) in blast)
    have fin: "finite (dom (pdist (initState fd s)))"
    proof -
      have "dom (pdist (initState fd s)) = insert s (declared fd)"
        by (auto simp: initState_def dist0_def split: if_splits)
      then show ?thesis by (simp add: declared_def)
    qed
    show "\<exists>dst prv. plainSearch fd s hs = Returns (dst, prv)"
    proof (cases "plainLoop adj hs (initState fd s)")
      case (Returns st)
      with adj False show ?thesis by (simp add: plainSearch_unfold)
    next
      case (Throws err)
      have "adj s = None \<and> inheritedKey s"
        by (rule plainLoop_Throws[OF init False _ Throws]) (erule tg)
      with sd B(1) show ?thesis by auto
    next
      case Diverges
      with plainLoop_terminates(1)[OF fin, of adj hs] show ?thesis by simp
    qed
  qed
qed


lemma finite_dist_start_declared:
  assumes res: "plainSearch fd s hs = Returns (dst, prv)" and start: "\<not> nodeIsHazardous s hs"
    and v: "dst v = Some (enat n)" and vd: "v \<in> declared fd"
  shows "s \<in> declared fd"
proof -
  from plainSearch_spec(5)[OF res start v] obtain ss where ss: "walkR (arc fd hs) s ss" "walkEnd s ss = v"
    by blast
  show ?thesis
  proof (cases "ss = []")
    case True with ss vd show ?thesis by simp
  next
    case False
    from walkR_first_arc[OF ss(1) False] plainSearch_spec(4)[OF res start] show ?thesis by blast
  qed
qed

lemma plainSearch_hazardous_dist:
  assumes res: "plainSearch fd s hs = Returns (dst, prv)" and hz: "nodeIsHazardous s hs"
  shows "dst = dist0 fd" "prv = prev0 fd"
  using assms by (simp_all add: plainSearch_unfold)

section \<open>Lemmas: exact sums, adjacency object, relaxation\<close>

lemma bitlen_le: "n < 2 ^ k \<Longrightarrow> bitlen n \<le> k"
proof (induction k arbitrary: n)
  case 0
  then show ?case by (simp add: bitlen.simps)
next
  case (Suc k)
  show ?case
  proof (cases "n = 0")
    case True
    then show ?thesis by (simp add: bitlen.simps)
  next
    case False
    have "m < 2 * j \<Longrightarrow> m div 2 < j" for m j :: nat by arith
    with Suc.prems have "n div 2 < 2 ^ k" by simp
    from Suc.IH[OF this] False show ?thesis by (subst bitlen.simps) simp
  qed
qed

lemma roundDouble_exact:
  assumes "n \<le> 9007199254740992"
  shows "roundDouble n = enat n"
proof (cases "n = 9007199254740992")
  case True
  then show ?thesis by (simp add: roundDouble_def bitlen.simps Let_def)
next
  case False
  with assms have "n < 2 ^ 53" by simp
  from bitlen_le[OF this] show ?thesis by (simp add: roundDouble_def)
qed

lemma jsAdd_exact: "a + b \<le> 9007199254740992 \<Longrightarrow> jsAdd a b = enat (a + b)"
  by (simp add: jsAdd_def roundDouble_exact)

lemma mapOutcome_simps [simp]:
  "mapOutcome f (Returns a) = Returns (f a)"
  "mapOutcome f (Throws err) = Throws err"
  "mapOutcome f Diverges = Diverges"
  by (simp_all add: mapOutcome_def)

lemma mapOutcome_Returns_iff:
  "mapOutcome f x = Returns b \<longleftrightarrow> (\<exists>a. x = Returns a \<and> b = f a)"
  by (cases x) auto

lemma foldl_initList:
  "''__proto__'' \<notin> set ids \<Longrightarrow>
     foldl initList (asAdj m) ids = asAdj (foldl (\<lambda>adj n. adj(n \<mapsto> [])) m ids)"
  by (induction ids arbitrary: m) (auto simp: initList_def asAdj_def)

lemma pushEdge_asAdj:
  "pushEdge (asAdj adj) a e =
     (case adj a of Some na \<Rightarrow> Returns (asAdj (adj(a \<mapsto> na @ [e]))) | None \<Rightarrow> Throws TypeError)"
  by (simp add: pushEdge_def asAdj_def split: option.splits)

lemma addEdge_asAdj:
  "addEdge hs (mapOutcome asAdj acc) e = mapOutcome asAdj (plainAddEdge hs acc e)"
  by (cases acc; cases e)
     (auto simp: addEdge_def plainAddEdge_def pushEdge_asAdj Let_def split: option.splits)

lemma foldl_addEdge_asAdj:
  "foldl (addEdge hs) (mapOutcome asAdj acc) es = mapOutcome asAdj (foldl (plainAddEdge hs) acc es)"
  by (induction es arbitrary: acc) (simp_all add: addEdge_asAdj)

lemma foldl_addEdge_asAdj_Returns:
  "foldl (addEdge hs) (Returns (asAdj adj)) es = mapOutcome asAdj (foldl (plainAddEdge hs) (Returns adj) es)"
  using foldl_addEdge_asAdj[of hs "Returns adj" es] by simp

lemma buildAdjacency_plain:
  assumes "noProtoNode fd"
  shows "buildAdjacency fd hs = mapOutcome asAdj (plainAdjacency fd hs)"
proof -
  from assms have np: "''__proto__'' \<notin> set (rooms fd @ exits fd)"
    by (simp add: noProtoNode_def declared_def)
  have e: "\<lparr>lists = Map.empty, protoArray = None\<rparr> = asAdj Map.empty" by (simp add: asAdj_def)
  show ?thesis
    unfolding buildAdjacency_def plainAdjacency_def computeCoords_def prod.case e
      foldl_initList[OF np]
    by (rule foldl_addEdge_asAdj_Returns)
qed

lemma neighbours_asAdj:
  "neighbours (asAdj adj) u =
     (case adj u of Some ns \<Rightarrow> Returns ns
      | None \<Rightarrow> if inheritedKey u then Throws TypeError else Returns [])"
  by (simp add: neighbours_def asAdj_def split: option.splits)

lemma foldl_setNum:
  "''__proto__'' \<notin> set ids \<Longrightarrow>
     foldl (\<lambda>m i. setNum m i v) m ids = foldl (\<lambda>m i. m(i \<mapsto> v)) m ids"
  by (induction ids arbitrary: m) (auto simp: setNum_def)

lemma foldl_storePrev:
  "''__proto__'' \<notin> set ids \<Longrightarrow>
     foldl (\<lambda>p i. storePrev p i None) (asPrev m) ids = asPrev (foldl (\<lambda>m i. m(i \<mapsto> None)) m ids)"
  by (induction ids arbitrary: m) (auto simp: storePrev_def asPrev_def)

lemma relax_plain:
  assumes np: "pdist st ''__proto__'' = None"
    and ex: "nodeIsHazardous to hs \<or> du + w \<le> 9007199254740992"
  shows "relax hs u du (asState st) (to, w) = asState (plainRelax hs u du st (to, w))"
    and "pdist (plainRelax hs u du st (to, w)) ''__proto__'' = None"
proof -
  have tp: "to \<noteq> ''__proto__''" if "numLess n (pdist st to)" for n
    using that np by (auto simp: numLess_def)
  show "relax hs u du (asState st) (to, w) = asState (plainRelax hs u du st (to, w))"
  proof (cases "nodeIsHazardous to hs")
    case True
    then show ?thesis by (simp add: relax_def plainRelax_def)
  next
    case False
    with ex have "jsAdd du w = enat (du + w)" by (simp add: jsAdd_exact)
    with False tp[of "du + w"] show ?thesis
      by (auto simp: relax_def plainRelax_def asState_def asPrev_def setNum_def storePrev_def Let_def)
  qed
  show "pdist (plainRelax hs u du st (to, w)) ''__proto__'' = None"
    using np tp[of "du + w"] by (auto simp: plainRelax_def Let_def)
qed

lemma foldl_relax_plain:
  assumes "pdist st ''__proto__'' = None"
    and "\<forall>(to, w) \<in> set ns. nodeIsHazardous to hs \<or> du + w \<le> 9007199254740992"
  shows "foldl (relax hs u du) (asState st) ns = asState (foldl (plainRelax hs u du) st ns)
         \<and> pdist (foldl (plainRelax hs u du) st ns) ''__proto__'' = None"
  using assms
proof (induction ns arbitrary: st)
  case Nil
  then show ?case by simp
next
  case (Cons e ns)
  obtain to w where e: "e = (to, w)" by (cases e)
  from Cons.prems(2) e have ex: "nodeIsHazardous to hs \<or> du + w \<le> 9007199254740992" by simp
  note r = relax_plain[OF Cons.prems(1) ex, of u]
  from Cons.prems(2) have "\<forall>(to, w) \<in> set ns. nodeIsHazardous to hs \<or> du + w \<le> 9007199254740992"
    by simp
  from Cons.IH[OF r(2) this] show ?case by (simp add: e r(1))
qed

section \<open>Lemmas: the bound on distances, one round of the program\<close>

lemma walkCost_bound:
  assumes "\<And>a b w. E a b w \<Longrightarrow> w \<le> W"
  shows "walkR E s ss \<Longrightarrow> walkCost ss \<le> length ss * W"
proof (induction ss arbitrary: s)
  case Nil
  then show ?case by simp
next
  case (Cons e ss)
  obtain v w where e: "e = (v, w)" by (cases e)
  from Cons.prems e have "E s v w" "walkR E v ss" by simp_all
  from assms[OF this(1)] Cons.IH[OF this(2)] show ?case by (simp add: e)
qed

lemma walk_nodes:
  assumes "\<And>a b w. E a b w \<Longrightarrow> a \<in> D \<and> b \<in> D"
  shows "walkR E s ss \<Longrightarrow> ss \<noteq> [] \<Longrightarrow> set (s # map fst ss) \<subseteq> D"
proof (induction ss arbitrary: s)
  case Nil
  then show ?case by simp
next
  case (Cons e ss)
  obtain v w where e: "e = (v, w)" by (cases e)
  from Cons.prems e have a: "E s v w" and r: "walkR E v ss" by simp_all
  from assms[OF a] have sv: "s \<in> D" "v \<in> D" by simp_all
  show ?case
  proof (cases "ss = []")
    case True
    with sv show ?thesis by (simp add: e)
  next
    case False
    from Cons.IH[OF r False] sv show ?thesis by (simp add: e)
  qed
qed

lemma tree_walk:
  assumes tr: "treeOK E s S rk st" and s0: "pdist st s = Some 0"
  shows "v \<in> S \<Longrightarrow> pdist st v = Some (enat n) \<Longrightarrow>
     \<exists>ss. walkR E s ss \<and> walkEnd s ss = v \<and> walkCost ss = n \<and> distinct (s # map fst ss)
        \<and> (\<forall>x \<in> set (s # map fst ss). x \<in> S \<and> rk x \<le> rk v)"
proof (induction "rk v" arbitrary: v n rule: less_induct)
  case less
  show ?case
  proof (cases "v = s")
    case True
    with less.prems(2) s0 have "n = 0" by (simp add: enat_0_iff)
    with True less.prems(1)
    have "walkR E s [] \<and> walkEnd s [] = v \<and> walkCost [] = n \<and> distinct (s # map fst [])
        \<and> (\<forall>x \<in> set (s # map fst []). x \<in> S \<and> rk x \<le> rk v)"
      by simp
    then show ?thesis by blast
  next
    case False
    from treeOKD[OF tr False less.prems(2)] less.prems(1)
    obtain a w m where a: "E a v w" "pdist st a = Some (enat m)" "n = m + w" "a \<in> S" "rk a < rk v"
      by blast
    from less.hyps[OF a(5) a(4) a(2)] obtain ss where ss: "walkR E s ss" "walkEnd s ss = a"
        "walkCost ss = m" "distinct (s # map fst ss)"
        "\<forall>x \<in> set (s # map fst ss). x \<in> S \<and> rk x \<le> rk a"
      by blast
    let ?ss = "ss @ [(v, w)]"
    have nv: "v \<notin> set (s # map fst ss)"
    proof
      assume "v \<in> set (s # map fst ss)"
      with ss(5) have "rk v \<le> rk a" by blast
      with a(5) show False by simp
    qed
    have 1: "walkR E s ?ss" "walkEnd s ?ss = v" "walkCost ?ss = n"
      using ss a by (simp_all add: walkR_append walkEnd_append)
    have 2: "distinct (s # map fst ?ss)" using ss(4) nv by auto
    have 3: "\<forall>x \<in> set (s # map fst ?ss). x \<in> S \<and> rk x \<le> rk v"
    proof
      fix x assume "x \<in> set (s # map fst ?ss)"
      then consider "x = v" | "x \<in> set (s # map fst ss)" by auto
      then show "x \<in> S \<and> rk x \<le> rk v"
      proof cases
        case 1
        with less.prems(1) show ?thesis by simp
      next
        case 2
        with ss(5) have "x \<in> S" "rk x \<le> rk a" by blast+
        with a(5) show ?thesis by simp
      qed
    qed
    from 1 2 3 show ?thesis by blast
  qed
qed

lemma distinct_length_le:
  assumes "distinct xs" "set xs \<subseteq> D" "finite D"
  shows "length xs \<le> card D"
proof -
  from assms(1) have "length xs = card (set xs)" by (simp add: distinct_card)
  also from assms(2,3) have "\<dots> \<le> card D" by (rule card_mono[rotated])
  finally show ?thesis .
qed

lemma pop_bound:
  assumes inv: "dinv E s ps S rk Cl st"
    and arcs: "\<And>a b w. E a b w \<Longrightarrow> a \<in> D \<and> b \<in> D \<and> w \<le> W"
    and fin: "finite D"
    and du: "pdist st u = Some (enat du)"
  shows "du \<le> (card D - 1) * W"
proof (cases "u = s")
  case True
  with dinvD(1)[OF inv] du show ?thesis by (simp add: enat_0_iff)
next
  case False
  note D = dinvD[OF inv]
  from treeOKD[OF D(4) False du]
  obtain a w m where a: "E a u w" "pdist st a = Some (enat m)" "du = m + w" "a \<in> S"
      "u \<in> S \<longrightarrow> rk a < rk u"
    by blast
  from tree_walk[OF D(4) D(1) a(4) a(2)] obtain ss where ss: "walkR E s ss" "walkEnd s ss = a"
      "walkCost ss = m" "distinct (s # map fst ss)"
      "\<forall>x \<in> set (s # map fst ss). x \<in> S \<and> rk x \<le> rk a"
    by blast
  let ?ss = "ss @ [(u, w)]"
  have nu: "u \<notin> set (s # map fst ss)"
  proof
    assume m: "u \<in> set (s # map fst ss)"
    with ss(5) have "u \<in> S" "rk u \<le> rk a" by blast+
    with a(5) show False by simp
  qed
  have w: "walkR E s ?ss" using ss a by (simp add: walkR_append)
  have c: "walkCost ?ss = du" using ss a by simp
  have d: "distinct (s # map fst ?ss)" using ss(4) nu by auto
  have "set (s # map fst ?ss) \<subseteq> D"
    by (rule walk_nodes[OF _ w]) (use arcs in blast, simp)
  from distinct_length_le[OF d this fin] have l: "length ?ss \<le> card D - 1" by simp
  have "walkCost ?ss \<le> length ?ss * W"
    by (rule walkCost_bound[OF _ w]) (use arcs in blast)
  also from l have "\<dots> \<le> (card D - 1) * W" by (rule mult_le_mono1)
  finally show ?thesis unfolding c .
qed

lemma asState_pq [simp]:
  "pq (asState st) = ppq st" "dist_v (asState st) = pdist st"
  "asState st\<lparr>pq := q\<rparr> = asState (st\<lparr>ppq := q\<rparr>)"
  by (simp_all add: asState_def)

lemma step_plain:
  assumes inv: "dinv (adjArcs adj hs) s ps S rk Cl st"
    and np: "pdist st ''__proto__'' = None"
    and ne: "ppq st \<noteq> []"
    and arcs: "\<And>a b w. adjArcs adj hs a b w \<Longrightarrow> a \<in> D \<and> b \<in> D \<and> w \<le> W"
    and fin: "finite D"
    and bd: "card D * W \<le> 9007199254740992"
  shows "dijkstraStep (asAdj adj) hs (asState st) = mapOutcome asState (plainStep adj hs st)"
    and "case plainStep adj hs st of Returns t \<Rightarrow> pdist t ''__proto__'' = None | _ \<Rightarrow> True"
proof -
  define i where "i = scanMin (ppq st) 0 1"
  define u where "u = fst (ppq st ! i)"
  define du where "du = snd (ppq st ! i)"
  define st1 where "st1 = st\<lparr>ppq := take i (ppq st) @ drop (Suc i) (ppq st)\<rparr>"
  have i: "i < length (ppq st)" unfolding i_def using ne by (rule scanMin_first)
  have np1: "pdist st1 ''__proto__'' = None" and d1: "pdist st1 = pdist st"
    using np by (simp_all add: st1_def)
  have F: "dijkstraStep (asAdj adj) hs (asState st) =
     (if numGreater du (pdist st u) then Returns (asState st1)
      else if nodeIsHazardous u hs then Returns (asState st1)
      else (case adj u of
              Some ns \<Rightarrow> Returns (foldl (relax hs u du) (asState st1) ns)
            | None \<Rightarrow> if inheritedKey u then Throws TypeError else Returns (asState st1)))"
    unfolding dijkstraStep_def Let_def neighbours_asAdj asState_pq i_def[symmetric]
      u_def[symmetric] du_def[symmetric] st1_def[symmetric]
    by (simp add: d1 split: option.splits)
  have P: "plainStep adj hs st =
     (if numGreater du (pdist st u) then Returns st1
      else if nodeIsHazardous u hs then Returns st1
      else (case adj u of
              Some ns \<Rightarrow> Returns (foldl (plainRelax hs u du) st1 ns)
            | None \<Rightarrow> if inheritedKey u then Throws TypeError else Returns st1))"
    unfolding plainStep_def Let_def i_def[symmetric] u_def[symmetric] du_def[symmetric]
      st1_def[symmetric]
    by (simp add: d1)
  have ex: "\<forall>(to, w) \<in> set ns. nodeIsHazardous to hs \<or> du + w \<le> 9007199254740992"
    if fresh: "\<not> numGreater du (pdist st u)" and hu: "\<not> nodeIsHazardous u hs"
      and ns: "adj u = Some ns" for ns
  proof (intro ballI, clarify)
    fix to w assume m: "(to, w) \<in> set ns" and ht: "\<not> du + w \<le> 9007199254740992"
    show "nodeIsHazardous to hs"
    proof (rule ccontr)
      assume nh: "\<not> nodeIsHazardous to hs"
      with m ns hu have "adjArcs adj hs u to w" by (auto simp: adjArcs_def)
      from arcs[OF this] have t: "to \<in> D" "w \<le> W" by simp_all
      from i have "ppq st ! i \<in> set (ppq st)" by simp
      with inv obtain y where y: "pdist st u = Some y" "y \<le> enat du"
        unfolding dinv_def u_def du_def by blast
      with fresh have "y = enat du" by (simp add: numGreater_def)
      with y have "pdist st u = Some (enat du)" by simp
      from pop_bound[OF inv arcs fin this] have "du \<le> (card D - 1) * W" by blast
      moreover from t(1) fin have "0 < card D" by (auto simp: card_gt_0_iff)
      then have "(card D - 1) * W + W = card D * W"
        by (cases "card D") simp_all
      ultimately have "du + w \<le> card D * W" using t(2) by linarith
      with bd ht show False by simp
    qed
  qed
  show "dijkstraStep (asAdj adj) hs (asState st) = mapOutcome asState (plainStep adj hs st)"
    unfolding F P using foldl_relax_plain[OF np1 ex, of _ u] by (auto split: option.splits)
  show "case plainStep adj hs st of Returns t \<Rightarrow> pdist t ''__proto__'' = None | _ \<Rightarrow> True"
    unfolding P using foldl_relax_plain[OF np1 ex, of _ u] np1 by (auto split: option.splits)
qed

section \<open>Lemmas: the program computes the search on finite maps\<close>

lemma loop_plain:
  assumes init: "dinv (adjArcs adj hs) s ps {} rk0 (\<lambda>a v w. a \<in> {}) st0"
    and start: "\<not> nodeIsHazardous s hs"
    and tg: "\<And>a v w. adjArcs adj hs a v w \<Longrightarrow> adj v \<noteq> None"
    and np: "pdist st0 ''__proto__'' = None"
    and arcs: "\<And>a b w. adjArcs adj hs a b w \<Longrightarrow> a \<in> D \<and> b \<in> D \<and> w \<le> W"
    and fin: "finite D"
    and bd: "card D * W \<le> 9007199254740992"
  shows "dijkstraLoop (asAdj adj) hs (asState st0) = mapOutcome asState (plainLoop adj hs st0)"
proof -
  define c where "c = (\<lambda>s. case s of Returns t \<Rightarrow> plainStep adj hs t | _ \<Rightarrow> s)"
  define c' where "c' = (\<lambda>s. case s of Returns t \<Rightarrow> dijkstraStep (asAdj adj) hs t | _ \<Rightarrow> s)"
  define P where "P = (\<lambda>x. loopInv adj hs s ps x
      \<and> (case x of Returns t \<Rightarrow> pdist t ''__proto__'' = None | _ \<Rightarrow> True))"
  have step: "P (c x) \<and> mapOutcome asState (c x) = c' (mapOutcome asState x)"
    if "P x" "plainRunning x" for x
  proof -
    from that(2) obtain t where x: "x = Returns t" and ne: "ppq t \<noteq> []"
      by (cases x) (auto simp: plainRunning_def)
    from that(1) x obtain S rk where inv: "dinv (adjArcs adj hs) s ps S rk (\<lambda>a v w. a \<in> S) t"
      and npt: "pdist t ''__proto__'' = None"
      by (auto simp: P_def loopInv_def)
    note st = step_plain[OF inv npt ne arcs fin bd]
    from plainStep_inv[OF inv ne start tg] st(2) have "P (c x)" by (simp add: P_def c_def x)
    moreover from st(1) have "mapOutcome asState (c x) = c' (mapOutcome asState x)"
      by (simp add: c_def c'_def x)
    ultimately show ?thesis by blast
  qed
  have test: "plainRunning x = running (mapOutcome asState x)" for x
    by (cases x) (simp_all add: plainRunning_def running_def)
  have init': "P (Returns st0)" using loopInvI[OF init] np by (simp add: P_def)
  have "map_option (mapOutcome asState) (while_option plainRunning c (Returns st0))
        = while_option running c' (mapOutcome asState (Returns st0))"
  proof (rule while_option_commute_invariant[where P = P])
    show "P (c x)" if "P x" "plainRunning x" for x using step[OF that] by blast
    show "plainRunning x = running (mapOutcome asState x)" for x by (rule test)
    show "mapOutcome asState (c x) = c' (mapOutcome asState x)" if "P x" "plainRunning x" for x
      using step[OF that] by blast
    show "P (Returns st0)" by (rule init')
  qed
  then have "while_option running c' (Returns (asState st0))
        = map_option (mapOutcome asState) (while_option plainRunning c (Returns st0))"
    by simp
  then show ?thesis
    unfolding dijkstraLoop_def plainLoop_def c_def[symmetric] c'_def[symmetric]
    by (cases "while_option plainRunning c (Returns st0)") simp_all
qed

lemma maxWeight_ge:
  "(a, b, w) \<in> set es \<Longrightarrow> (w :: nat) \<le> foldr (\<lambda>(a, b, w) m. max w m) es 0"
  by (induction es) auto

lemma asState_prev [simp]: "prev (asState st) = asPrev (pprev st)"
  by (simp add: asState_def)

lemma exactSums_card:
  assumes "exactSums fd"
  shows "card (declared fd) * maxWeight fd \<le> 9007199254740992"
proof -
  have "card (declared fd) \<le> length (rooms fd @ exits fd)"
    unfolding declared_def by (rule card_length)
  then have "card (declared fd) * maxWeight fd \<le> (length (rooms fd) + length (exits fd)) * maxWeight fd"
    by (simp add: mult_le_mono1)
  with assms show ?thesis unfolding exactSums_def by linarith
qed

lemma dijkstra_init:
  assumes "noProtoNode fd" and "s \<noteq> ''__proto__''"
  shows "dijkstra fd s hs =
     (if nodeIsHazardous s hs then Returns (dist0 fd, asPrev (prev0 fd))
      else (case buildAdjacency fd hs of
              Returns adj \<Rightarrow>
                (case dijkstraLoop adj hs (asState (initState fd s)) of
                   Returns st \<Rightarrow> Returns (dist_v st, prev st)
                 | Throws err \<Rightarrow> Throws err
                 | Diverges \<Rightarrow> Diverges)
            | Throws err \<Rightarrow> Throws err
            | Diverges \<Rightarrow> Diverges))"
proof -
  from assms(1) have np: "''__proto__'' \<notin> set (rooms fd @ exits fd)"
    by (simp add: noProtoNode_def declared_def)
  have e: "\<lparr>props = Map.empty, protoNull = False\<rparr> = asPrev Map.empty" by (simp add: asPrev_def)
  have d: "foldl (\<lambda>m i. setNum m i \<infinity>) Map.empty (rooms fd @ exits fd) = dist0 fd"
    unfolding foldl_setNum[OF np] foldl_const_upd dist0_def declared_def by simp
  have p: "foldl (\<lambda>p i. storePrev p i None) \<lparr>props = Map.empty, protoNull = False\<rparr>
             (rooms fd @ exits fd) = asPrev (prev0 fd)"
    unfolding e foldl_storePrev[OF np] foldl_const_upd prev0_def declared_def by simp
  have s: "\<lparr>dist_v = setNum (dist0 fd) s 0, prev = asPrev (prev0 fd), pq = [(s, 0)]\<rparr>
             = asState (initState fd s)"
    using assms(2) by (simp add: asState_def initState_def setNum_def)
  show ?thesis
    unfolding dijkstra_def computeCoords_def prod.case Let_def d p s ..
qed

lemma dijkstra_plain:
  assumes np: "noProtoNode fd" and ex: "exactSums fd" and s: "s \<noteq> ''__proto__''"
  shows "dijkstra fd s hs = mapOutcome (\<lambda>(dst, prv). (dst, asPrev prv)) (plainSearch fd s hs)"
proof (cases "nodeIsHazardous s hs")
  case True
  then show ?thesis by (simp add: dijkstra_init[OF np s] plainSearch_unfold)
next
  case start: False
  show ?thesis
  proof (cases "plainAdjacency fd hs")
    case (Returns adj)
    note B = plainAdjacency_Returns[OF Returns, folded declared_eq]
    have decl: "a \<in> declared fd \<and> b \<in> declared fd" if "arc fd hs a b w" for a b w
      using B(3)[OF that] .
    have tg: "adj v \<noteq> None" if "adjArcs adj hs a v w" for a v w
    proof -
      from that have "arc fd hs a v w" unfolding B(2) .
      from decl[OF this] have "v \<in> dom adj" unfolding B(1) by simp
      then show ?thesis by blast
    qed
    have init: "dinv (adjArcs adj hs) s (prev0 fd s) {} (\<lambda>_. 0) (\<lambda>a v w. a \<in> {}) (initState fd s)"
      unfolding B(2) by (rule init_dinv) (use decl in blast)
    have np0: "pdist (initState fd s) ''__proto__'' = None"
      using np s by (simp add: initState_def dist0_def noProtoNode_def)
    have arcs: "a \<in> declared fd \<and> b \<in> declared fd \<and> w \<le> maxWeight fd"
      if "adjArcs adj hs a b w" for a b w
    proof -
      from that have a: "arc fd hs a b w" unfolding B(2) .
      then have "(a, b, w) \<in> set (edges fd) \<or> (b, a, w) \<in> set (edges fd)" by (simp add: arc_def)
      then have "w \<le> maxWeight fd" unfolding maxWeight_def by (auto intro: maxWeight_ge)
      with decl[OF a] show ?thesis by simp
    qed
    have fin: "finite (declared fd)" by (simp add: declared_def)
    have L: "dijkstraLoop (asAdj adj) hs (asState (initState fd s))
               = mapOutcome asState (plainLoop adj hs (initState fd s))"
      by (rule loop_plain[OF init start tg np0 arcs fin exactSums_card[OF ex]])
    have A: "buildAdjacency fd hs = Returns (asAdj adj)"
      by (simp add: buildAdjacency_plain[OF np] Returns)
    show ?thesis
      using start
      by (cases "plainLoop adj hs (initState fd s)")
         (simp_all add: dijkstra_init[OF np s] plainSearch_unfold A Returns L)
  next
    case (Throws err)
    with start show ?thesis
      by (simp add: dijkstra_init[OF np s] plainSearch_unfold buildAdjacency_plain[OF np])
  next
    case Diverges
    with start show ?thesis
      by (simp add: dijkstra_init[OF np s] plainSearch_unfold buildAdjacency_plain[OF np])
  qed
qed

section \<open>Lemmas: what dijkstra computes\<close>

lemma dijkstraLoop_first_throws:
  assumes "neighbours adj s = Throws err" "\<not> nodeIsHazardous s hs" "\<not> numGreater 0 (ds s)"
  shows "dijkstraLoop adj hs \<lparr>dist_v = ds, prev = p, pq = [(s, 0)]\<rparr> = Throws err"
proof -
  let ?st = "\<lparr>dist_v = ds, prev = p, pq = [(s, 0)]\<rparr>"
  let ?c = "\<lambda>s. case s of Returns t \<Rightarrow> dijkstraStep adj hs t | _ \<Rightarrow> s"
  have r: "running (Returns ?st)" by (simp add: running_def)
  have st: "dijkstraStep adj hs ?st = Throws err"
    using assms by (simp add: dijkstraStep_def scanMin_single Let_def)
  have nr: "\<not> running (Throws err)" by (simp add: running_def)
  have "while_option running ?c (Returns ?st) = Some (Throws err)"
    by (subst while_option_unfold, simp only: r if_True outcome.case st, subst while_option_unfold)
       (simp only: nr if_False)
  then show ?thesis by (simp add: dijkstraLoop_def)
qed

lemma foldl_setNum_lookup:
  "m ''__proto__'' = None \<Longrightarrow>
     foldl (\<lambda>m i. setNum m i v) m ids =
       (\<lambda>k. if k \<in> set ids \<and> k \<noteq> ''__proto__'' then Some v else m k)"
proof (induction ids arbitrary: m)
  case Nil
  then show ?case by simp
next
  case (Cons i ids)
  have 1: "setNum m i v ''__proto__'' = None" using Cons.prems by (simp add: setNum_def)
  show ?case
    unfolding foldl_Cons Cons.IH[where m = "setNum m i v", OF 1]
    using Cons.prems by (auto simp: fun_eq_iff setNum_def)
qed

text \<open>The distance table that \<^verbatim>\<open>dijkstra\<close> starts from.\<close>

lemma dijkstra_hazardous_start:
  assumes "nodeIsHazardous s hs"
  shows "\<exists>prv. dijkstra fd s hs =
     Returns (\<lambda>k. if k \<in> declared fd \<and> k \<noteq> ''__proto__'' then Some \<infinity> else None, prv)"
proof -
  have "foldl (\<lambda>m i. setNum m i \<infinity>) Map.empty (rooms fd @ exits fd) =
      (\<lambda>k. if k \<in> declared fd \<and> k \<noteq> ''__proto__'' then Some \<infinity> else None)"
    by (subst foldl_setNum_lookup) (simp_all add: declared_def)
  with assms show ?thesis
    by (simp add: dijkstra_def computeCoords_def Let_def)
qed

lemma dijkstra_proto_start:
  assumes np: "noProtoNode fd" and nh: "\<not> nodeIsHazardous ''__proto__'' hs"
  shows "dijkstra fd ''__proto__'' hs \<noteq> Returns x"
proof (cases "plainAdjacency fd hs")
  case (Returns adj)
  from plainAdjacency_Returns(1)[OF Returns] np have "adj ''__proto__'' = None"
    by (auto simp: noProtoNode_def declared_eq dom_def)
  then have n: "neighbours (asAdj adj) ''__proto__'' = Throws TypeError"
    by (simp add: neighbours_asAdj inheritedKey_def objectPrototypeKeys_def)
  have A: "buildAdjacency fd hs = Returns (asAdj adj)"
    by (simp add: buildAdjacency_plain[OF np] Returns)
  let ?d0 = "foldl (\<lambda>m i. setNum m i \<infinity>) Map.empty (rooms fd @ exits fd)"
  have "?d0 ''__proto__'' = None" by (subst foldl_setNum_lookup) simp_all
  then have d: "setNum ?d0 ''__proto__'' 0 = ?d0" "\<not> numGreater 0 (?d0 ''__proto__'')"
    by (simp_all add: setNum_def numGreater_def)
  show ?thesis
    using nh
    by (simp add: dijkstra_def computeCoords_def Let_def A d(1)
          dijkstraLoop_first_throws[where ds = ?d0 and s = "''__proto__''", OF n nh d(2)]
          del: foldl_append)
next
  case (Throws err)
  with nh show ?thesis
    by (simp add: dijkstra_def computeCoords_def Let_def buildAdjacency_plain[OF np])
next
  case Diverges
  with nh show ?thesis
    by (simp add: dijkstra_def computeCoords_def Let_def buildAdjacency_plain[OF np])
qed

lemma dijkstra_Returns:
  assumes np: "noProtoNode fd" and ex: "exactSums fd"
    and res: "dijkstra fd s hs = Returns (dst, prv)" and start: "\<not> nodeIsHazardous s hs"
  shows "s \<noteq> ''__proto__''"
    and "\<exists>p. prv = asPrev p \<and> plainSearch fd s hs = Returns (dst, p)"
proof -
  show s: "s \<noteq> ''__proto__''"
  proof
    assume "s = ''__proto__''"
    with dijkstra_proto_start[OF np, of hs] start res show False by simp
  qed
  from res show "\<exists>p. prv = asPrev p \<and> plainSearch fd s hs = Returns (dst, p)"
    unfolding dijkstra_plain[OF np ex s] by (auto simp: mapOutcome_Returns_iff)
qed

lemma asPrev_simps [simp]: "props (asPrev p) = p" "protoNull (asPrev p) = False"
  by (simp_all add: asPrev_def)

lemma dijkstra_spec:
  assumes np: "noProtoNode fd" and ex: "exactSums fd"
    and res: "dijkstra fd s hs = Returns (dst, prv)" and start: "\<not> nodeIsHazardous s hs"
  shows "dst s = Some 0"
    and "props prv s = prev0 fd s"
    and "dom dst = insert s (declared fd)"
    and "\<And>a b w. arc fd hs a b w \<Longrightarrow> a \<in> declared fd \<and> b \<in> declared fd"
    and "\<And>v n. dst v = Some (enat n) \<Longrightarrow>
           \<exists>ss. walkR (arc fd hs) s ss \<and> walkEnd s ss = v \<and> walkCost ss = n"
    and "\<And>ss. walkR (arc fd hs) s ss \<Longrightarrow>
           \<exists>n. dst (walkEnd s ss) = Some (enat n) \<and> n \<le> walkCost ss"
    and "\<exists>rk. prevTree (arc fd hs) s dst (props prv) rk"
proof -
  from dijkstra_Returns(2)[OF np ex res start] obtain p where p: "prv = asPrev p"
    and pl: "plainSearch fd s hs = Returns (dst, p)" by blast
  note S = plainSearch_spec[OF pl start]
  show "dst s = Some 0" by (rule S(1))
  show "props prv s = prev0 fd s" unfolding p using S(2) by simp
  show "dom dst = insert s (declared fd)" by (rule S(3))
  show "a \<in> declared fd \<and> b \<in> declared fd" if "arc fd hs a b w" for a b w
    using that by (rule S(4))
  show "\<exists>ss. walkR (arc fd hs) s ss \<and> walkEnd s ss = v \<and> walkCost ss = n"
    if "dst v = Some (enat n)" for v n using that by (rule S(5))
  show "\<exists>n. dst (walkEnd s ss) = Some (enat n) \<and> n \<le> walkCost ss"
    if "walkR (arc fd hs) s ss" for ss using that by (rule S(6))
  show "\<exists>rk. prevTree (arc fd hs) s dst (props prv) rk" unfolding p using S(7) by simp
qed

lemma dijkstra_Returns_iff:
  assumes np: "noProtoNode fd" and ex: "exactSums fd"
  shows "(\<exists>dst prv. dijkstra fd s hs = Returns (dst, prv)) \<longleftrightarrow>
     nodeIsHazardous s hs
     \<or> (passableEdgesDeclared fd hs \<and> (s \<in> declared fd \<or> \<not> inheritedKey s))"
proof (cases "nodeIsHazardous s hs")
  case True
  with dijkstra_hazardous_start[OF True, of fd] show ?thesis by auto
next
  case False
  show ?thesis
  proof (cases "s = ''__proto__''")
    case True
    have "inheritedKey ''__proto__''" by (simp add: inheritedKey_def objectPrototypeKeys_def)
    moreover from np have "''__proto__'' \<notin> declared fd" by (simp add: noProtoNode_def)
    ultimately show ?thesis
      using False dijkstra_proto_start[OF np, of hs] unfolding True by auto
  next
    case s: False
    have "(\<exists>dst prv. dijkstra fd s hs = Returns (dst, prv))
        \<longleftrightarrow> (\<exists>dst p. plainSearch fd s hs = Returns (dst, p))"
      unfolding dijkstra_plain[OF np ex s] by (auto simp: mapOutcome_Returns_iff)
    then show ?thesis unfolding plainSearch_Returns_iff .
  qed
qed


lemma dijkstra_finite_start_declared:
  assumes np: "noProtoNode fd" and ex: "exactSums fd"
    and res: "dijkstra fd s hs = Returns (dst, prv)" and start: "\<not> nodeIsHazardous s hs"
    and v: "dst v = Some (enat n)" and vd: "v \<in> declared fd"
  shows "s \<in> declared fd"
proof -
  from dijkstra_Returns(2)[OF np ex res start] obtain p
    where "plainSearch fd s hs = Returns (dst, p)" by blast
  from finite_dist_start_declared[OF this start v vd] show ?thesis .
qed

section \<open>Lemmas: the nearest exit, path reconstruction\<close>

lemma foldl_pickExit_Throws [simp]:
  "foldl (pickExit hs dst prv) (Throws err) es = Throws err"
  by (induction es) (auto simp: pickExit_def)

lemma foldl_pickExit_Diverges [simp]:
  "foldl (pickExit hs dst prv) Diverges es = Diverges"
  by (induction es) (auto simp: pickExit_def)

lemma pickExit_cases:
  "pickExit hs dst prv (Returns b) e = Returns b
   \<or> pickExit hs dst prv (Returns b) e = Diverges
   \<or> (\<exists>n p. pickExit hs dst prv (Returns b) e = Returns (Some \<lparr>exitId = e, d = n, path = p\<rparr>)
        \<and> hs e \<noteq> Some ''exit-blocked'' \<and> dst e = Some (enat n) \<and> mkPath prv e = Some p
        \<and> (\<forall>r. b = Some r \<longrightarrow> n < d r))"
  by (auto simp: pickExit_def exitBlocked_iff split: option.splits enat.splits)

lemma foldl_pickExit_Some:
  "foldl (pickExit hs dst prv) (Returns b) es = Returns (Some r) \<Longrightarrow>
     b = Some r \<or>
     (exitId r \<in> set es \<and> hs (exitId r) \<noteq> Some ''exit-blocked''
        \<and> dst (exitId r) = Some (enat (d r)) \<and> mkPath prv (exitId r) = Some (path r))"
proof (induction es arbitrary: b)
  case Nil
  then show ?case by simp
next
  case (Cons e es)
  from pickExit_cases[of hs dst prv b e] show ?case
  proof (elim disjE exE conjE)
    assume "pickExit hs dst prv (Returns b) e = Returns b"
    with Cons show ?thesis by auto
  next
    assume "pickExit hs dst prv (Returns b) e = Diverges"
    with Cons.prems show ?thesis by simp
  next
    fix n p
    assume *: "pickExit hs dst prv (Returns b) e = Returns (Some \<lparr>exitId = e, d = n, path = p\<rparr>)"
      "hs e \<noteq> Some ''exit-blocked''" "dst e = Some (enat n)" "mkPath prv e = Some p"
    with Cons.prems have "foldl (pickExit hs dst prv) (Returns (Some \<lparr>exitId = e, d = n, path = p\<rparr>)) es = Returns (Some r)"
      by simp
    from Cons.IH[OF this] * show ?thesis by auto
  qed
qed

lemma findRoute_Some:
  assumes "findRoute bldg st = Returns (Some r)"
  shows "\<exists>p dst prv. pos st = Some p \<and> p \<noteq> ''''
     \<and> dijkstra (bldg (floor_v st)) p (snapshotHazards st) = Returns (dst, prv)
     \<and> foldl (pickExit (snapshotHazards st) dst prv) (Returns None) (exits (bldg (floor_v st))) = Returns (Some r)
     \<and> (\<forall>x \<in> set (butlast (tl (path r))). \<not> nodeIsHazardous (keyOf x) (snapshotHazards st))"
  using assms
  by (auto simp: findRoute_def computeCoords_def Let_def split: option.splits if_splits outcome.splits prod.splits)

lemma mkPath_loop_chain:
  assumes "chain (props prv) v p"
  shows "while_option (\<lambda>(p, cur). cur \<noteq> None)
       (\<lambda>(p, cur). (the cur # p, readPrev prv (keyOf (the cur))))
       (q, Some (Str v)) = Some (map Str p @ q, None)"
proof -
  define b :: "jsval list \<times> jsval option \<Rightarrow> bool" where "b = (\<lambda>(p, cur). cur \<noteq> None)"
  define c :: "jsval list \<times> jsval option \<Rightarrow> jsval list \<times> jsval option"
    where "c = (\<lambda>(p, cur). (the cur # p, readPrev prv (keyOf (the cur))))"
  have "while_option b c (q, Some (Str v)) = Some (map Str p @ q, None)" for q
    using assms
  proof (induction arbitrary: q rule: chain.induct)
    case (chain_start v)
    have 1: "b (q, Some (Str v))" "c (q, Some (Str v)) = (Str v # q, None)" "\<not> b (Str v # q, None)"
      using chain_start by (simp_all add: b_def c_def readPrev_def keyOf_def)
    show ?case
      by (subst while_option_unfold, simp only: 1 if_True, subst while_option_unfold)
         (simp only: 1 if_False append.simps list.map)
  next
    case (chain_step v a p)
    have 1: "b (q, Some (Str v))" "c (q, Some (Str v)) = (Str v # q, Some (Str a))"
      using chain_step.hyps by (simp_all add: b_def c_def readPrev_def keyOf_def)
    show ?case
      by (subst while_option_unfold)
         (simp only: 1 if_True chain_step.IH append_assoc append.simps map_append list.map)
  qed
  then show ?thesis unfolding b_def c_def .
qed

lemma mkPath_chain: "chain (props prv) e p \<Longrightarrow> mkPath prv e = Some (map Str p)"
  using mkPath_loop_chain[of prv e p "[]"] by (simp add: mkPath_def)

lemma pickExit_cases2:
  "(pickExit hs dst prv (Returns b) e = Returns b
      \<and> (\<forall>n. hs e \<noteq> Some ''exit-blocked'' \<longrightarrow> dst e = Some (enat n) \<longrightarrow> (\<exists>r0. b = Some r0 \<and> d r0 \<le> n)))
   \<or> (pickExit hs dst prv (Returns b) e = Diverges
        \<and> (\<exists>n. dst e = Some (enat n)) \<and> mkPath prv e = None)
   \<or> (\<exists>n p. pickExit hs dst prv (Returns b) e = Returns (Some \<lparr>exitId = e, d = n, path = p\<rparr>)
        \<and> hs e \<noteq> Some ''exit-blocked'' \<and> dst e = Some (enat n) \<and> mkPath prv e = Some p
        \<and> (\<forall>r. b = Some r \<longrightarrow> n < d r))"
  by (cases b; cases "dst e"; cases "mkPath prv e")
     (auto simp: pickExit_def exitBlocked_iff split: enat.splits)

lemma foldl_pickExit_sel:
  "foldl (pickExit hs dst prv) (Returns b) es = Returns (Some r) \<Longrightarrow>
     (b = Some r \<and> (\<forall>e\<in>set es. hs e \<noteq> Some ''exit-blocked'' \<longrightarrow>
                       (\<forall>n. dst e = Some (enat n) \<longrightarrow> d r \<le> n)))
   \<or> (\<exists>es1 es2. es = es1 @ exitId r # es2
         \<and> hs (exitId r) \<noteq> Some ''exit-blocked'' \<and> dst (exitId r) = Some (enat (d r))
         \<and> mkPath prv (exitId r) = Some (path r)
         \<and> (\<forall>r0. b = Some r0 \<longrightarrow> d r < d r0)
         \<and> (\<forall>e\<in>set es1. hs e \<noteq> Some ''exit-blocked'' \<longrightarrow> (\<forall>n. dst e = Some (enat n) \<longrightarrow> d r < n))
         \<and> (\<forall>e\<in>set es2. hs e \<noteq> Some ''exit-blocked'' \<longrightarrow> (\<forall>n. dst e = Some (enat n) \<longrightarrow> d r \<le> n)))"
proof (induction es arbitrary: b)
  case Nil
  then show ?case by simp
next
  case (Cons e es)
  let ?A = "\<lambda>b es. b = Some r \<and> (\<forall>e\<in>set es. hs e \<noteq> Some ''exit-blocked'' \<longrightarrow>
                       (\<forall>n. dst e = Some (enat n) \<longrightarrow> d r \<le> n))"
  let ?B = "\<lambda>b es es1 es2. es = es1 @ exitId r # es2
         \<and> hs (exitId r) \<noteq> Some ''exit-blocked'' \<and> dst (exitId r) = Some (enat (d r))
         \<and> mkPath prv (exitId r) = Some (path r)
         \<and> (\<forall>r0. b = Some r0 \<longrightarrow> d r < d r0)
         \<and> (\<forall>e\<in>set es1. hs e \<noteq> Some ''exit-blocked'' \<longrightarrow> (\<forall>n. dst e = Some (enat n) \<longrightarrow> d r < n))
         \<and> (\<forall>e\<in>set es2. hs e \<noteq> Some ''exit-blocked'' \<longrightarrow> (\<forall>n. dst e = Some (enat n) \<longrightarrow> d r \<le> n))"
  from pickExit_cases2[of hs dst prv b e]
  consider (same) "pickExit hs dst prv (Returns b) e = Returns b"
      "\<forall>n. hs e \<noteq> Some ''exit-blocked'' \<longrightarrow> dst e = Some (enat n) \<longrightarrow> (\<exists>r0. b = Some r0 \<and> d r0 \<le> n)"
    | (div) "pickExit hs dst prv (Returns b) e = Diverges"
    | (upd) n p where "pickExit hs dst prv (Returns b) e = Returns (Some \<lparr>exitId = e, d = n, path = p\<rparr>)"
        "hs e \<noteq> Some ''exit-blocked''" "dst e = Some (enat n)" "mkPath prv e = Some p"
        "\<forall>r. b = Some r \<longrightarrow> n < d r"
    by blast
  then show ?case
  proof cases
    case same
    with Cons.prems have "foldl (pickExit hs dst prv) (Returns b) es = Returns (Some r)" by simp
    from Cons.IH[OF this] show ?thesis
    proof (elim disjE exE)
      assume A: "?A b es"
      with same(2) have "?A b (e # es)" by auto
      then show ?thesis by blast
    next
      fix es1 es2 assume Bh: "?B b es es1 es2"
      have "\<forall>n. hs e \<noteq> Some ''exit-blocked'' \<longrightarrow> dst e = Some (enat n) \<longrightarrow> d r < n"
      proof (intro allI impI)
        fix n assume "hs e \<noteq> Some ''exit-blocked''" "dst e = Some (enat n)"
        with same(2) obtain r0 where "b = Some r0" "d r0 \<le> n" by blast
        with Bh show "d r < n" by auto
      qed
      with Bh have "?B b (e # es) (e # es1) es2" by simp
      then show ?thesis by blast
    qed
  next
    case div
    with Cons.prems show ?thesis by simp
  next
    case upd
    let ?b' = "Some \<lparr>exitId = e, d = n, path = p\<rparr>"
    from upd(1) Cons.prems have "foldl (pickExit hs dst prv) (Returns ?b') es = Returns (Some r)" by simp
    from Cons.IH[OF this] show ?thesis
    proof (elim disjE exE)
      assume A: "?A ?b' es"
      then have r: "r = \<lparr>exitId = e, d = n, path = p\<rparr>" by simp
      with A upd have "?B b (e # es) [] es" by simp
      then show ?thesis by blast
    next
      fix es1 es2 assume Bh: "?B ?b' es es1 es2"
      then have lt: "d r < n" by simp
      with upd(5) have "\<forall>r0. b = Some r0 \<longrightarrow> d r < d r0" by (auto intro: less_trans)
      moreover have "\<forall>n'. dst e = Some (enat n') \<longrightarrow> d r < n'" using upd(3) lt by simp
      ultimately have "?B b (e # es) (e # es1) es2" using Bh by simp
      then show ?thesis by blast
    qed
  qed
qed


lemma foldl_pickExit_None:
  assumes "\<forall>e\<in>set es. hs e \<noteq> Some ''exit-blocked'' \<longrightarrow> \<not> (\<exists>n. dst e = Some (enat n))"
  shows "foldl (pickExit hs dst prv) (Returns None) es = Returns None"
  using assms
proof (induction es)
  case Nil
  then show ?case by simp
next
  case (Cons e es)
  then have "pickExit hs dst prv (Returns None) e = Returns None"
    by (auto simp: pickExit_def exitBlocked_iff split: option.splits enat.splits)
  with Cons show ?case by simp
qed



section \<open>Lemmas: findRoute\<close>

lemma exits_declared: "e \<in> set (exits fd) \<Longrightarrow> e \<in> declared fd"
  by (simp add: declared_eq)

lemma findRoute_unfold:
  assumes "pos st = Some s" "s \<noteq> ''''"
  shows "findRoute bldg st =
     (case dijkstra (bldg (floor_v st)) s (snapshotHazards st) of
        Returns (dst, prv) \<Rightarrow>
          (case foldl (pickExit (snapshotHazards st) dst prv) (Returns None)
                  (exits (bldg (floor_v st))) of
             Returns None \<Rightarrow> Returns None
           | Returns (Some best) \<Rightarrow>
               if \<exists>x \<in> set (butlast (tl (path best))).
                    nodeIsHazardous (keyOf x) (snapshotHazards st)
               then Returns None
               else Returns (Some best)
           | Throws err \<Rightarrow> Throws err
           | Diverges \<Rightarrow> Diverges)
      | Throws err \<Rightarrow> Throws err
      | Diverges \<Rightarrow> Diverges)"
  using assms unfolding findRoute_def computeCoords_def Let_def by simp

lemma findRoute_hazardous_start:
  assumes "pos st = Some s" "nodeIsHazardous s (snapshotHazards st)"
  shows "findRoute bldg st = Returns None"
proof (cases "s = ''''")
  case True
  with assms(1) show ?thesis by (simp add: findRoute_def)
next
  case False
  from dijkstra_hazardous_start[OF assms(2), of "bldg (floor_v st)"] obtain prv
    where dj: "dijkstra (bldg (floor_v st)) s (snapshotHazards st) =
      Returns (\<lambda>k. if k \<in> declared (bldg (floor_v st)) \<and> k \<noteq> ''__proto__'' then Some \<infinity> else None, prv)"
    by blast
  show ?thesis
    unfolding findRoute_unfold[OF assms(1) False] dj
    by (simp add: foldl_pickExit_None)
qed

lemma findRoute_route:
  assumes np: "noProtoNode (bldg (floor_v st))" and ex: "exactSums (bldg (floor_v st))"
    and res: "findRoute bldg st = Returns (Some r)"
  shows "\<exists>s dst prv ss. pos st = Some s \<and> s \<noteq> '''' \<and> \<not> nodeIsHazardous s (snapshotHazards st)
     \<and> dijkstra (bldg (floor_v st)) s (snapshotHazards st) = Returns (dst, prv)
     \<and> foldl (pickExit (snapshotHazards st) dst prv) (Returns None) (exits (bldg (floor_v st)))
           = Returns (Some r)
     \<and> exitId r \<in> set (exits (bldg (floor_v st)))
     \<and> snapshotHazards st (exitId r) \<noteq> Some ''exit-blocked''
     \<and> dst (exitId r) = Some (enat (d r))
     \<and> path r = map Str (s # map fst ss)
     \<and> walkR (arc (bldg (floor_v st)) (snapshotHazards st)) s ss
     \<and> walkEnd s ss = exitId r \<and> walkCost ss = d r \<and> distinct (s # map fst ss)"
proof -
  let ?fd = "bldg (floor_v st)" and ?hs = "snapshotHazards st"
  from findRoute_Some[OF res] obtain s dst prv where s: "pos st = Some s" "s \<noteq> ''''"
    and dj: "dijkstra ?fd s ?hs = Returns (dst, prv)"
    and fold: "foldl (pickExit ?hs dst prv) (Returns None) (exits ?fd) = Returns (Some r)"
    by blast
  have nh: "\<not> nodeIsHazardous s ?hs"
  proof
    assume "nodeIsHazardous s ?hs"
    from findRoute_hazardous_start[OF s(1) this, of bldg] res show False by simp
  qed
  from foldl_pickExit_Some[OF fold] have e: "exitId r \<in> set (exits ?fd)"
    "?hs (exitId r) \<noteq> Some ''exit-blocked''" "dst (exitId r) = Some (enat (d r))"
    "mkPath prv (exitId r) = Some (path r)"
    by simp_all
  note D = dijkstra_spec[OF np ex dj nh]
  have sd: "s \<in> declared ?fd"
    by (rule dijkstra_finite_start_declared[OF np ex dj nh e(3)]) (rule exits_declared[OF e(1)])
  have ps: "props prv s = Some None"
    using D(2) sd by (simp add: prev0_def)
  from D(7) obtain rk where tr: "prevTree (arc ?fd ?hs) s dst (props prv) rk" by blast
  from chain_exists[OF tr ps D(1) e(3)]
  obtain ss where ss: "chain (props prv) (exitId r) (s # map fst ss)" "walkR (arc ?fd ?hs) s ss"
    "walkEnd s ss = exitId r" "walkCost ss = d r" "distinct (s # map fst ss)"
    by blast
  from mkPath_chain[OF ss(1)] e(4) have p: "path r = map Str (s # map fst ss)" by simp
  show ?thesis
    using s nh dj fold e(1,2,3) p ss(2,3,4,5) by blast
qed

lemma findRoute_exit:
  assumes "findRoute bldg st = Returns (Some r)"
  shows "exitId r \<in> set (exits (bldg (floor_v st)))"
    and "snapshotHazards st (exitId r) \<noteq> Some ''exit-blocked''"
proof -
  from findRoute_Some[OF assms] obtain s dst prv where
    "foldl (pickExit (snapshotHazards st) dst prv) (Returns None) (exits (bldg (floor_v st)))
       = Returns (Some r)"
    by blast
  from foldl_pickExit_Some[OF this]
  show "exitId r \<in> set (exits (bldg (floor_v st)))"
    and "snapshotHazards st (exitId r) \<noteq> Some ''exit-blocked''"
    by simp_all
qed

lemma nth_middle_in_butlast_tl:
  assumes "0 < i" "i < length p - 1"
  shows "p ! i \<in> set (butlast (tl p))"
proof -
  have "i - 1 < length (butlast (tl p))" using assms by simp
  moreover have "butlast (tl p) ! (i - 1) = p ! i"
    using assms by (simp add: nth_butlast nth_tl)
  ultimately show ?thesis by (metis nth_mem)
qed

section \<open>Results\<close>

lemma foldl_storePrev_props:
  "v \<noteq> ''__proto__'' \<Longrightarrow>
     props (foldl (\<lambda>p i. storePrev p i None) p ids) v = (if v \<in> set ids then Some None else props p v)"
  by (induction ids arbitrary: p) (auto simp: storePrev_def)

lemma dijkstra_hazardous_tables:
  assumes "nodeIsHazardous s hs"
  shows "\<exists>dst prv. dijkstra fd s hs = Returns (dst, prv)
     \<and> (\<forall>v \<in> declared fd. v \<noteq> ''__proto__'' \<longrightarrow> dst v = Some \<infinity> \<and> props prv v = Some None)"
proof -
  let ?d = "foldl (\<lambda>m i. setNum m i \<infinity>) Map.empty (rooms fd @ exits fd)"
  let ?p = "foldl (\<lambda>p i. storePrev p i None) \<lparr>props = Map.empty, protoNull = False\<rparr>
              (rooms fd @ exits fd)"
  have d: "?d = (\<lambda>k. if k \<in> declared fd \<and> k \<noteq> ''__proto__'' then Some \<infinity> else None)"
    by (subst foldl_setNum_lookup) (simp_all add: declared_def)
  have p: "props ?p v = Some None" if "v \<in> declared fd" "v \<noteq> ''__proto__''" for v
    using that by (simp add: foldl_storePrev_props declared_def del: foldl_append)
  have "dijkstra fd s hs = Returns (?d, ?p)"
    using assms by (simp add: dijkstra_def computeCoords_def Let_def del: foldl_append)
  moreover have "\<forall>v \<in> declared fd. v \<noteq> ''__proto__'' \<longrightarrow> ?d v = Some \<infinity> \<and> props ?p v = Some None"
    using p unfolding d by simp
  ultimately show ?thesis by blast
qed

text \<open>
  C1 (exclusion invariant): when \<open>findRoute\<close> returns a route, no element of its path other
  than the first and the last has a hazard kind in \<open>{fire, smoke, blocked, closed}\<close> under
  the snapshot of the call, an element being looked up under its property key.
\<close>

theorem exclusion_invariant:
  assumes "findRoute bldg st = Returns (Some r)" and "0 < i" and "i < length (path r) - 1"
  shows "snapshotHazards st (keyOf (path r ! i)) \<notin> Some ` set ROOM_HAZARD_TYPES"
proof -
  from findRoute_Some[OF assms(1)]
  have "\<forall>x \<in> set (butlast (tl (path r))). \<not> nodeIsHazardous (keyOf x) (snapshotHazards st)"
    by blast
  with nth_middle_in_butlast_tl[OF assms(2,3)]
  have "\<not> nodeIsHazardous (keyOf (path r ! i)) (snapshotHazards st)" by blast
  then show ?thesis by (simp add: nodeIsHazardous_iff)
qed

lemma route_main_hall:
  "findRoute BLDG (groundFloor (Some ''main_hall'') Map.empty) =
     Returns (Some \<lparr>exitId = ''exitA'', d = 2,
                    path = [Str ''main_hall'', Str ''entrance'', Str ''exitA'']\<rparr>)"
  by code_simp

theorem exclusion_invariant_witness:
  "findRoute BLDG (groundFloor (Some ''main_hall'') Map.empty) =
     Returns (Some \<lparr>exitId = ''exitA'', d = 2,
                    path = [Str ''main_hall'', Str ''entrance'', Str ''exitA'']\<rparr>)
   \<and> snapshotHazards (groundFloor (Some ''main_hall'') Map.empty) ''entrance''
        \<notin> Some ` set ROOM_HAZARD_TYPES"
  using exclusion_invariant[OF route_main_hall, of 1] route_main_hall by (simp add: keyOf_def)

text \<open>
  C3 (destination eligibility): the exit of a returned route is a declared exit whose
  snapshot value is not \<open>exit-blocked\<close>.
\<close>

theorem destination_eligibility:
  assumes "findRoute bldg st = Returns (Some r)"
  shows "exitId r \<in> set (exits (bldg (floor_v st)))
         \<and> snapshotHazards st (exitId r) \<noteq> Some ''exit-blocked''"
  using findRoute_exit[OF assms] by blast

lemma route_reception_exitB_blocked:
  "findRoute BLDG (groundFloor (Some ''reception'') [''exitB'' \<mapsto> ''exit-blocked'']) =
     Returns (Some \<lparr>exitId = ''exitA'', d = 2, path = [Str ''reception'', Str ''entrance'', Str ''exitA'']\<rparr>)"
  by code_simp

theorem destination_eligibility_witness:
  "findRoute BLDG (groundFloor (Some ''reception'') [''exitB'' \<mapsto> ''exit-blocked'']) =
     Returns (Some \<lparr>exitId = ''exitA'', d = 2, path = [Str ''reception'', Str ''entrance'', Str ''exitA'']\<rparr>)
   \<and> ''exitA'' \<in> set (exits (BLDG GF))
   \<and> snapshotHazards (groundFloor (Some ''reception'') [''exitB'' \<mapsto> ''exit-blocked'']) ''exitA''
        \<noteq> Some ''exit-blocked''"
  using destination_eligibility[OF route_reception_exitB_blocked] route_reception_exitB_blocked
  by (simp add: groundFloor_def)

text \<open>
  C4 (self-block): a node named \<^verbatim>\<open>__proto__\<close> gets no distance. On a floor whose exit
  has that name, with the start node on fire, the distance table that \<open>dijkstra\<close> returns
  has no number for the exit: the store \<^verbatim>\<open>dist['__proto__'] = Infinity\<close> is lost.
\<close>

theorem self_block_counterexample:
  "''__proto__'' \<in> set (exits (protoExit GF))
   \<and> nodeIsHazardous ''a'' [''a'' \<mapsto> ''fire'']
   \<and> distanceOf (protoExit GF) ''a'' [''a'' \<mapsto> ''fire''] ''__proto__'' = Returns None
   \<and> distanceOf (protoExit GF) ''a'' [''a'' \<mapsto> ''fire''] ''b'' = Returns (Some \<infinity>)"
  by code_simp

text \<open>
  C4 as amended: when the snapshot marks the start node with a kind in
  \<open>{fire, smoke, blocked, closed}\<close>, \<open>dijkstra\<close> returns at once with the distance of every
  declared node not named \<^verbatim>\<open>__proto__\<close> infinite and its predecessor \<open>null\<close>, and \<open>findRoute\<close>
  returns no route, whatever the floor definition and the other hazards are.
\<close>

theorem self_block:
  assumes "pos st = Some s" and "snapshotHazards st s \<in> Some ` set ROOM_HAZARD_TYPES"
  shows "(\<exists>dst prv. dijkstra (bldg (floor_v st)) s (snapshotHazards st) = Returns (dst, prv)
            \<and> (\<forall>v \<in> set (rooms (bldg (floor_v st))) \<union> set (exits (bldg (floor_v st))).
                  v \<noteq> ''__proto__'' \<longrightarrow> dst v = Some \<infinity> \<and> props prv v = Some None))
         \<and> findRoute bldg st = Returns None"
proof -
  from assms(2) have hz: "nodeIsHazardous s (snapshotHazards st)" by (simp add: nodeIsHazardous_iff)
  from dijkstra_hazardous_tables[OF hz, of "bldg (floor_v st)"]
    findRoute_hazardous_start[OF assms(1) hz, of bldg]
  show ?thesis unfolding declared_eq by blast
qed

theorem self_block_witness:
  "pos (groundFloor (Some ''entrance'') [''entrance'' \<mapsto> ''fire'']) = Some ''entrance''
   \<and> snapshotHazards (groundFloor (Some ''entrance'') [''entrance'' \<mapsto> ''fire'']) ''entrance''
        \<in> Some ` set ROOM_HAZARD_TYPES
   \<and> findRoute BLDG (groundFloor (Some ''entrance'') [''entrance'' \<mapsto> ''fire'']) = Returns None
   \<and> (\<exists>dst prv. dijkstra (BLDG GF) ''entrance''
          (snapshotHazards (groundFloor (Some ''entrance'') [''entrance'' \<mapsto> ''fire'']))
            = Returns (dst, prv)
        \<and> dst ''exitA'' = Some \<infinity> \<and> props prv ''exitA'' = Some None)"
proof -
  let ?st = "groundFloor (Some ''entrance'') [''entrance'' \<mapsto> ''fire'']"
  have 1: "pos ?st = Some ''entrance''"
    by (simp add: groundFloor_def)
  have 2: "snapshotHazards ?st ''entrance'' \<in> Some ` set ROOM_HAZARD_TYPES"
    by (simp add: groundFloor_def snapshotHazards_def ROOM_HAZARD_TYPES_def)
  have 3: "floor_v ?st = GF" by (simp add: groundFloor_def)
  have 4: "''exitA'' \<in> set (rooms (BLDG GF)) \<union> set (exits (BLDG GF))" "''exitA'' \<noteq> ''__proto__''"
    by simp_all
  note sb = self_block[OF 1 2, of BLDG, unfolded 3]
  from sb have a: "findRoute BLDG ?st = Returns None" by (rule conjunct2)
  from conjunct1[OF sb] obtain dst prv
    where dj: "dijkstra (BLDG GF) ''entrance'' (snapshotHazards ?st) = Returns (dst, prv)"
      and all: "\<forall>v \<in> set (rooms (BLDG GF)) \<union> set (exits (BLDG GF)).
                  v \<noteq> ''__proto__'' \<longrightarrow> dst v = Some \<infinity> \<and> props prv v = Some None"
    by (elim exE conjE)
  have e: "dst ''exitA'' = Some \<infinity> \<and> props prv ''exitA'' = Some None"
    by (rule mp[OF bspec[OF all 4(1)] 4(2)])
  have "\<exists>dst prv. dijkstra (BLDG GF) ''entrance'' (snapshotHazards ?st) = Returns (dst, prv)
        \<and> dst ''exitA'' = Some \<infinity> \<and> props prv ''exitA'' = Some None"
    by (intro exI conjI) (rule dj, rule conjunct1[OF e], rule conjunct2[OF e])
  with 1 2 a show ?thesis by (intro conjI)
qed

text \<open>
  C8 (hazard store): the member names of \<^verbatim>\<open>Object.prototype\<close> behave differently. A string
  stored under \<^verbatim>\<open>__proto__\<close> is lost, and after the key \<^verbatim>\<open>toString\<close> is cleared \<open>getHaz\<close>
  returns the inherited function, not the empty string.
\<close>

theorem setHaz_getHaz_counterexample:
  "getHaz (setHaz ''__proto__'' ''fire'' (groundFloor None Map.empty)) ''__proto__'' = Inherited
   \<and> getHaz (setHaz ''toString'' '''' (groundFloor None Map.empty)) ''toString'' = Inherited"
  by code_simp

text \<open>
  C8 as amended: for a node id that is not a member name of \<^verbatim>\<open>Object.prototype\<close>,
  \<open>getHaz\<close> after \<open>setHaz\<close> with a non-empty hazard string returns that string; \<open>setHaz\<close>
  with the empty string removes the key from the floor's hazard object, and \<open>getHaz\<close>
  then returns the empty string.
\<close>

theorem setHaz_getHaz:
  assumes "\<not> inheritedKey i"
  shows "(k \<noteq> '''' \<longrightarrow> getHaz (setHaz i k st) i = HazStr k)
         \<and> (\<exists>m. haz (setHaz i '''' st) (floor_v st) = Some m \<and> i \<notin> dom m)
         \<and> getHaz (setHaz i '''' st) i = HazStr ''''"
proof -
  from assms have "i \<noteq> ''__proto__''" by (auto simp: inheritedKey_def objectPrototypeKeys_def)
  with assms show ?thesis
    by (simp add: getHaz_def setHaz_def lookupOrEmpty_def Let_def)
qed

theorem setHaz_getHaz_witness:
  "\<not> inheritedKey ''kitchen''
   \<and> getHaz (setHaz ''kitchen'' ''smoke'' (groundFloor None Map.empty)) ''kitchen'' = HazStr ''smoke''
   \<and> getHaz (setHaz ''kitchen'' '''' (setHaz ''kitchen'' ''smoke'' (groundFloor None Map.empty)))
        ''kitchen'' = HazStr ''''"
proof -
  have 1: "\<not> inheritedKey ''kitchen''" by (simp add: inheritedKey_def objectPrototypeKeys_def)
  from setHaz_getHaz[OF 1, of "''smoke''" "groundFloor None Map.empty"]
    setHaz_getHaz[OF 1, of "''smoke''" "setHaz ''kitchen'' ''smoke'' (groundFloor None Map.empty)"] 1
  show ?thesis by simp
qed

text \<open>
  C7 (no-route reasons): the returned value does not tell the no-route reasons apart.
  With no position selected, with the start node on fire, and with every exit blocked,
  \<open>findRoute\<close> returns the same value.
\<close>

theorem no_route_reasons_counterexample:
  "findRoute BLDG (groundFloor None Map.empty)
     = findRoute BLDG (groundFloor (Some ''entrance'') [''entrance'' \<mapsto> ''fire''])
   \<and> findRoute BLDG (groundFloor (Some ''entrance'') [''entrance'' \<mapsto> ''fire''])
     = findRoute BLDG (groundFloor (Some ''entrance'')
         [''exitA'' \<mapsto> ''exit-blocked'', ''exitB'' \<mapsto> ''exit-blocked''])"
  by code_simp

text \<open>
  C7 as amended: \<open>findRoute\<close> returns the one value \<^verbatim>\<open>null\<close> when no position is selected,
  when the start node is impassable, and when the search returns and every exit is either
  marked \<open>exit-blocked\<close> or has no finite distance.
\<close>

theorem no_route_is_null:
  "(pos st = None \<or> pos st = Some '''' \<longrightarrow> findRoute bldg st = Returns None)
   \<and> (pos st = Some s \<and> snapshotHazards st s \<in> Some ` set ROOM_HAZARD_TYPES
        \<longrightarrow> findRoute bldg st = Returns None)
   \<and> (pos st = Some s \<and> s \<noteq> ''''
        \<and> dijkstra (bldg (floor_v st)) s (snapshotHazards st) = Returns (dst, prv)
        \<and> (\<forall>e \<in> set (exits (bldg (floor_v st))).
              snapshotHazards st e = Some ''exit-blocked'' \<or> \<not> (\<exists>n. dst e = Some (enat n)))
        \<longrightarrow> findRoute bldg st = Returns None)"
proof (intro conjI impI)
  assume "pos st = None \<or> pos st = Some ''''"
  then show "findRoute bldg st = Returns None" by (auto simp: findRoute_def)
next
  assume "pos st = Some s \<and> snapshotHazards st s \<in> Some ` set ROOM_HAZARD_TYPES"
  then show "findRoute bldg st = Returns None"
    by (intro findRoute_hazardous_start[of st s]) (simp_all add: nodeIsHazardous_iff)
next
  assume a: "pos st = Some s \<and> s \<noteq> ''''
        \<and> dijkstra (bldg (floor_v st)) s (snapshotHazards st) = Returns (dst, prv)
        \<and> (\<forall>e \<in> set (exits (bldg (floor_v st))).
              snapshotHazards st e = Some ''exit-blocked'' \<or> \<not> (\<exists>n. dst e = Some (enat n)))"
  then have "foldl (pickExit (snapshotHazards st) dst prv) (Returns None) (exits (bldg (floor_v st)))
               = Returns None"
    by (intro foldl_pickExit_None) blast
  with a show "findRoute bldg st = Returns None"
    by (simp add: findRoute_unfold)
qed

theorem no_route_is_null_witness:
  "pos (groundFloor None Map.empty) = None
   \<and> findRoute BLDG (groundFloor None Map.empty) = Returns None
   \<and> pos (groundFloor (Some ''entrance'') [''entrance'' \<mapsto> ''fire'']) = Some ''entrance''
   \<and> snapshotHazards (groundFloor (Some ''entrance'') [''entrance'' \<mapsto> ''fire'']) ''entrance''
        \<in> Some ` set ROOM_HAZARD_TYPES
   \<and> findRoute BLDG (groundFloor (Some ''entrance'') [''entrance'' \<mapsto> ''fire'']) = Returns None"
proof -
  have 1: "pos (groundFloor None Map.empty) = None" by (simp add: groundFloor_def)
  have 2: "pos (groundFloor (Some ''entrance'') [''entrance'' \<mapsto> ''fire'']) = Some ''entrance''"
    by (simp add: groundFloor_def)
  have 3: "snapshotHazards (groundFloor (Some ''entrance'') [''entrance'' \<mapsto> ''fire'']) ''entrance''
        \<in> Some ` set ROOM_HAZARD_TYPES"
    by (simp add: groundFloor_def snapshotHazards_def ROOM_HAZARD_TYPES_def)
  from no_route_is_null[of "groundFloor None Map.empty" BLDG] 1
  have 4: "findRoute BLDG (groundFloor None Map.empty) = Returns None" by blast
  from no_route_is_null[of "groundFloor (Some ''entrance'') [''entrance'' \<mapsto> ''fire'']" BLDG
      "''entrance''"] 2 3
  have 5: "findRoute BLDG (groundFloor (Some ''entrance'') [''entrance'' \<mapsto> ''fire'']) = Returns None"
    by blast
  from 1 2 3 4 5 show ?thesis by blast
qed


text \<open>
  For every other undeclared start id \<open>findRoute\<close> returns no route, on a floor whose edges
  join declared nodes and on which the dictionaries behave as finite maps.
\<close>

lemma unknown_start_no_route:
  assumes "pos st = Some s" and "s \<noteq> ''''" and "s \<notin> declared (bldg (floor_v st))"
    and "\<not> inheritedKey s" and "edgesDeclared (bldg (floor_v st))"
    and np: "noProtoNode (bldg (floor_v st))" and ex: "exactSums (bldg (floor_v st))"
  shows "findRoute bldg st = Returns None"
proof (cases "nodeIsHazardous s (snapshotHazards st)")
  case True
  with assms(1) show ?thesis by (rule findRoute_hazardous_start)
next
  case False
  let ?fd = "bldg (floor_v st)" and ?hs = "snapshotHazards st"
  from assms(5) have "passableEdgesDeclared ?fd ?hs"
    unfolding edgesDeclared_def passableEdgesDeclared_def by blast
  with assms(4) dijkstra_Returns_iff[OF np ex, of s ?hs]
  obtain dst prv where dj: "dijkstra ?fd s ?hs = Returns (dst, prv)" by blast
  have "\<not> (\<exists>n. dst e = Some (enat n))" if "e \<in> set (exits ?fd)" for e
  proof
    assume "\<exists>n. dst e = Some (enat n)"
    then obtain n where "dst e = Some (enat n)" by blast
    from dijkstra_finite_start_declared[OF np ex dj False this exits_declared[OF that]] assms(3)
    show False by simp
  qed
  then have "foldl (pickExit ?hs dst prv) (Returns None) (exits ?fd) = Returns None"
    by (intro foldl_pickExit_None) blast
  with dj show ?thesis by (simp add: findRoute_unfold[OF assms(1,2)])
qed

section \<open>Results on distances and paths\<close>

lemma walkR_nth:
  "walkR E s ss \<Longrightarrow> i < length ss \<Longrightarrow>
     E ((s # map fst ss) ! i) ((s # map fst ss) ! Suc i) (map snd ss ! i)"
proof (induction ss arbitrary: s i)
  case Nil
  then show ?case by simp
next
  case (Cons e ss)
  obtain v w where e: "e = (v, w)" by (cases e)
  show ?case
  proof (cases i)
    case 0
    with Cons.prems e show ?thesis by simp
  next
    case (Suc j)
    with Cons.prems e have "walkR E v ss" "j < length ss" by simp_all
    from Cons.IH[OF this] Suc e show ?thesis by simp
  qed
qed






lemmas evals = findRoute_def computeCoords_def snapshotHazards_def groundFloor_def
  dijkstra_def buildAdjacency_def addEdge_def pushEdge_def initList_def nodeIsHazardous_def
  lookupOrEmpty_def inheritedKey_def objectPrototypeKeys_def ROOM_HAZARD_TYPES_def
  setNum_def storePrev_def dijkstraLoop_def while_option_unfold running_def dijkstraStep_def
  scanMin.simps numGreater_def numLess_def neighbours_def relax_def jsAdd_def roundDouble_def
  bitlen.simps Let_def pickExit_def mkPath_def readPrev_def keyOf_def

lemma keyOf_Str [simp]: "keyOf (Str s) = s"
  by (simp add: keyOf_def)



lemma BLDG_GF_regular: "noProtoNode (BLDG GF)" "exactSums (BLDG GF)"
  by (simp_all add: noProtoNode_def declared_def exactSums_def maxWeight_def)

lemma walkCost_single [simp]: "walkCost [(v, w)] = w"
  by (simp add: walkCost_def)

text \<open>
  C2 (minimality): the returned distance is not minimal on a floor with a node named
  \<^verbatim>\<open>__proto__\<close>, nor on a floor with weights near \<open>2^53\<close>. On the first, \<open>findRoute\<close> returns a route of distance 3
  although the walk through \<^verbatim>\<open>__proto__\<close> costs 2: the search never enters that node. On
  the second, it returns a distance above the cost of the only path, because the sum of the
  two weights is rounded.
\<close>

theorem minimality_counterexample:
  "findRoute protoDetour (groundFloor (Some ''a'') Map.empty) =
     Returns (Some \<lparr>exitId = ''x'', d = 3, path = [Str ''a'', Str ''b'', Str ''c'', Str ''x'']\<rparr>)
   \<and> walkR (arc (protoDetour GF) (snapshotHazards (groundFloor (Some ''a'') Map.empty))) ''a''
        [(''__proto__'', 1), (''x'', 1)]
   \<and> walkCost [(''__proto__'', 1), (''x'', 1)] = 2
   \<and> findRoute heavy (groundFloor (Some ''a'') Map.empty) =
     Returns (Some \<lparr>exitId = ''x'', d = 9007199254740996, path = [Str ''a'', Str ''b'', Str ''x'']\<rparr>)
   \<and> walkR (arc (heavy GF) (snapshotHazards (groundFloor (Some ''a'') Map.empty))) ''a''
        [(''b'', 9007199254740994), (''x'', 1)]
   \<and> walkCost [(''b'', 9007199254740994), (''x'', 1)] = 9007199254740995"
proof -
  have 1: "findRoute protoDetour (groundFloor (Some ''a'') Map.empty) =
     Returns (Some \<lparr>exitId = ''x'', d = 3, path = [Str ''a'', Str ''b'', Str ''c'', Str ''x'']\<rparr>)"
    by code_simp
  have 2: "walkR (arc (protoDetour GF) (snapshotHazards (groundFloor (Some ''a'') Map.empty))) ''a''
        [(''__proto__'', 1), (''x'', 1)]"
    by code_simp
  have 3: "findRoute heavy (groundFloor (Some ''a'') Map.empty) =
     Returns (Some \<lparr>exitId = ''x'', d = 9007199254740996, path = [Str ''a'', Str ''b'', Str ''x'']\<rparr>)"
    by (simp add: evals heavy_def zero_enat_def)
  have 4: "walkR (arc (heavy GF) (snapshotHazards (groundFloor (Some ''a'') Map.empty))) ''a''
        [(''b'', 9007199254740994), (''x'', 1)]"
    by (simp add: arc_def heavy_def nodeIsHazardous_iff snapshotHazards_def groundFloor_def)
  from 1 2 3 4 show ?thesis by simp
qed

text \<open>
  C2 as amended: on a floor with no node named \<^verbatim>\<open>__proto__\<close> and with exact sums (the
  number of nodes times the largest edge weight is at most \<open>2^53\<close>), the distance of a
  returned route is the cost of a hazard-free walk from the start to the chosen exit, no
  hazard-free walk from the start to that exit costs less, and no hazard-free walk from the
  start to any exit that is not marked \<open>exit-blocked\<close> costs less. Weights may be zero.
\<close>

theorem minimality:
  assumes "noProtoNode (bldg (floor_v st))" and "exactSums (bldg (floor_v st))"
    and "findRoute bldg st = Returns (Some r)" and "pos st = Some s"
  shows "(\<exists>ss. walkR (arc (bldg (floor_v st)) (snapshotHazards st)) s ss
               \<and> walkEnd s ss = exitId r \<and> walkCost ss = d r)
       \<and> (\<forall>ss. walkR (arc (bldg (floor_v st)) (snapshotHazards st)) s ss
               \<and> walkEnd s ss = exitId r \<longrightarrow> d r \<le> walkCost ss)
       \<and> (\<forall>e \<in> set (exits (bldg (floor_v st))).
             snapshotHazards st e \<noteq> Some ''exit-blocked'' \<longrightarrow>
             (\<forall>ss. walkR (arc (bldg (floor_v st)) (snapshotHazards st)) s ss
                    \<and> walkEnd s ss = e \<longrightarrow> d r \<le> walkCost ss))"
proof -
  let ?fd = "bldg (floor_v st)" and ?hs = "snapshotHazards st"
  from findRoute_route[OF assms(1,2,3)] assms(4)
  obtain dst prv ss where nh: "\<not> nodeIsHazardous s ?hs"
    and dj: "dijkstra ?fd s ?hs = Returns (dst, prv)"
    and fold: "foldl (pickExit ?hs dst prv) (Returns None) (exits ?fd) = Returns (Some r)"
    and e: "exitId r \<in> set (exits ?fd)" "?hs (exitId r) \<noteq> Some ''exit-blocked''"
      "dst (exitId r) = Some (enat (d r))"
    and ss: "walkR (arc ?fd ?hs) s ss" "walkEnd s ss = exitId r" "walkCost ss = d r"
    by auto
  have least: "d r \<le> n" if "x \<in> set (exits ?fd)" "?hs x \<noteq> Some ''exit-blocked''"
    "dst x = Some (enat n)" for x n
  proof -
    from foldl_pickExit_sel[OF fold]
    obtain es1 es2 where es: "exits ?fd = es1 @ exitId r # es2"
      and lt: "\<forall>e\<in>set es1. ?hs e \<noteq> Some ''exit-blocked'' \<longrightarrow> (\<forall>n. dst e = Some (enat n) \<longrightarrow> d r < n)"
      and le: "\<forall>e\<in>set es2. ?hs e \<noteq> Some ''exit-blocked'' \<longrightarrow> (\<forall>n. dst e = Some (enat n) \<longrightarrow> d r \<le> n)"
      by auto
    from that(1) es consider "x \<in> set es1" | "x = exitId r" | "x \<in> set es2" by auto
    then show ?thesis
    proof cases
      case 1 with lt that show ?thesis by (auto intro: less_imp_le)
    next
      case 2 with e(3) that show ?thesis by simp
    next
      case 3 with le that show ?thesis by blast
    qed
  qed
  have bound: "d r \<le> walkCost ws" if "x \<in> set (exits ?fd)" "?hs x \<noteq> Some ''exit-blocked''"
    "walkR (arc ?fd ?hs) s ws" "walkEnd s ws = x" for x ws
  proof -
    from dijkstra_spec(6)[OF assms(1,2) dj nh that(3)] that(4)
    obtain n where "dst x = Some (enat n)" "n \<le> walkCost ws" by blast
    with least[OF that(1,2)] show ?thesis by (meson le_trans)
  qed
  show ?thesis
    using ss bound e(1,2) by blast
qed

theorem minimality_witness:
  "noProtoNode (BLDG GF) \<and> exactSums (BLDG GF)
   \<and> findRoute BLDG (groundFloor (Some ''main_hall'') Map.empty) =
     Returns (Some \<lparr>exitId = ''exitA'', d = 2,
                    path = [Str ''main_hall'', Str ''entrance'', Str ''exitA'']\<rparr>)
   \<and> pos (groundFloor (Some ''main_hall'') Map.empty) = Some ''main_hall''
   \<and> (\<exists>ss. walkR (arc (BLDG GF) (snapshotHazards (groundFloor (Some ''main_hall'') Map.empty)))
              ''main_hall'' ss
            \<and> walkEnd ''main_hall'' ss = ''exitA'' \<and> walkCost ss = 2)"
proof -
  have p: "pos (groundFloor (Some ''main_hall'') Map.empty) = Some ''main_hall''"
    by (simp add: groundFloor_def)
  have f: "floor_v (groundFloor (Some ''main_hall'') Map.empty) = GF"
    by (simp add: groundFloor_def)
  note m = minimality[where bldg = BLDG and st = "groundFloor (Some ''main_hall'') Map.empty",
      unfolded f, OF BLDG_GF_regular route_main_hall p]
  from conjunct1[OF m] BLDG_GF_regular route_main_hall p show ?thesis
    by simp
qed

text \<open>
  C9 (well-formed path): the returned route is not well formed on a floor with a node named
  \<^verbatim>\<open>__proto__\<close>, nor on a floor with weights near \<open>2^53\<close>. On the first, with the start at \<^verbatim>\<open>__proto__\<close>, the
  returned path begins with \<^verbatim>\<open>undefined\<close>, not with the start. On the second, the reported
  distance is not the sum of the two weights on the path.
\<close>

theorem route_well_formed_counterexample:
  "findRoute protoStart (groundFloor (Some ''__proto__'') Map.empty) =
     Returns (Some \<lparr>exitId = ''x'', d = 1, path = [Undefined, Str ''__proto__'', Str ''x'']\<rparr>)
   \<and> findRoute heavy (groundFloor (Some ''a'') Map.empty) =
     Returns (Some \<lparr>exitId = ''x'', d = 9007199254740996, path = [Str ''a'', Str ''b'', Str ''x'']\<rparr>)
   \<and> edges (heavy GF) = [(''a'', ''b'', 9007199254740994), (''b'', ''x'', 1)]
   \<and> sum_list [9007199254740994, 1] = (9007199254740995 :: nat)"
proof -
  have 1: "findRoute protoStart (groundFloor (Some ''__proto__'') Map.empty) =
     Returns (Some \<lparr>exitId = ''x'', d = 1, path = [Undefined, Str ''__proto__'', Str ''x'']\<rparr>)"
    by code_simp
  have 3: "findRoute heavy (groundFloor (Some ''a'') Map.empty) =
     Returns (Some \<lparr>exitId = ''x'', d = 9007199254740996, path = [Str ''a'', Str ''b'', Str ''x'']\<rparr>)"
    by (simp add: evals heavy_def zero_enat_def)
  from 1 3 show ?thesis by (simp add: heavy_def)
qed

text \<open>
  C9 as amended: on a floor with no node named \<^verbatim>\<open>__proto__\<close> and with exact sums, the path
  of a returned route consists of node ids; it starts at the start id, ends at the chosen
  exit, repeats no node, joins every two consecutive nodes by a declared edge, in one
  direction or the other, and the weights of these edges add up to the distance of the
  route. Weights may be zero.
\<close>

theorem route_well_formed:
  assumes "noProtoNode (bldg (floor_v st))" and "exactSums (bldg (floor_v st))"
    and "findRoute bldg st = Returns (Some r)" and "pos st = Some s"
  shows "\<exists>ns. path r = map Str ns
       \<and> ns \<noteq> [] \<and> hd ns = s \<and> last ns = exitId r \<and> distinct ns
       \<and> (\<exists>ws. length ws + 1 = length ns
             \<and> (\<forall>i < length ws.
                   (ns ! i, ns ! Suc i, ws ! i) \<in> set (edges (bldg (floor_v st)))
                   \<or> (ns ! Suc i, ns ! i, ws ! i) \<in> set (edges (bldg (floor_v st))))
             \<and> sum_list ws = d r)"
proof -
  let ?fd = "bldg (floor_v st)" and ?hs = "snapshotHazards st"
  from findRoute_route[OF assms(1,2,3)] assms(4)
  obtain ss where p: "path r = map Str (s # map fst ss)"
    and ss: "walkR (arc ?fd ?hs) s ss" "walkEnd s ss = exitId r" "walkCost ss = d r"
    and dp: "distinct (s # map fst ss)"
    by auto
  let ?ns = "s # map fst ss"
  have 1: "?ns \<noteq> []" "hd ?ns = s" by simp_all
  have 2: "last ?ns = exitId r" using ss(2) unfolding walkEnd_last .
  let ?ws = "map snd ss"
  have 3: "length ?ws + 1 = length ?ns" by simp
  have 4: "\<forall>i < length ?ws.
             (?ns ! i, ?ns ! Suc i, ?ws ! i) \<in> set (edges ?fd)
             \<or> (?ns ! Suc i, ?ns ! i, ?ws ! i) \<in> set (edges ?fd)"
  proof (intro allI impI)
    fix i assume "i < length ?ws"
    then have "i < length ss" by simp
    from walkR_nth[OF ss(1) this]
    show "(?ns ! i, ?ns ! Suc i, ?ws ! i) \<in> set (edges ?fd)
             \<or> (?ns ! Suc i, ?ns ! i, ?ws ! i) \<in> set (edges ?fd)"
      unfolding arc_def by blast
  qed
  have 5: "sum_list ?ws = d r" using ss(3) by (simp add: walkCost_def)
  have "\<exists>ws. length ws + 1 = length ?ns
             \<and> (\<forall>i < length ws.
                   (?ns ! i, ?ns ! Suc i, ws ! i) \<in> set (edges ?fd)
                   \<or> (?ns ! Suc i, ?ns ! i, ws ! i) \<in> set (edges ?fd))
             \<and> sum_list ws = d r"
    using 3 4 5 by blast
  with p 1 2 dp show ?thesis by blast
qed

theorem route_well_formed_witness:
  "noProtoNode (BLDG GF) \<and> exactSums (BLDG GF)
   \<and> findRoute BLDG (groundFloor (Some ''main_hall'') Map.empty) =
     Returns (Some \<lparr>exitId = ''exitA'', d = 2,
                    path = [Str ''main_hall'', Str ''entrance'', Str ''exitA'']\<rparr>)
   \<and> pos (groundFloor (Some ''main_hall'') Map.empty) = Some ''main_hall''
   \<and> (\<exists>ns. [Str ''main_hall'', Str ''entrance'', Str ''exitA''] = map Str ns
         \<and> hd ns = ''main_hall'' \<and> last ns = ''exitA'' \<and> distinct ns)"
proof -
  have p: "pos (groundFloor (Some ''main_hall'') Map.empty) = Some ''main_hall''"
    by (simp add: groundFloor_def)
  have f: "floor_v (groundFloor (Some ''main_hall'') Map.empty) = GF"
    by (simp add: groundFloor_def)
  from route_well_formed[where bldg = BLDG and st = "groundFloor (Some ''main_hall'') Map.empty",
      unfolded f, OF BLDG_GF_regular route_main_hall p]
  obtain ns where "path \<lparr>exitId = ''exitA'', d = 2,
                    path = [Str ''main_hall'', Str ''entrance'', Str ''exitA'']\<rparr> = map Str ns"
    "hd ns = ''main_hall''" "last ns = exitId \<lparr>exitId = ''exitA'', d = 2,
                    path = [Str ''main_hall'', Str ''entrance'', Str ''exitA'']\<rparr>" "distinct ns"
    by blast
  then have "\<exists>ns. [Str ''main_hall'', Str ''entrance'', Str ''exitA''] = map Str ns
         \<and> hd ns = ''main_hall'' \<and> last ns = ''exitA'' \<and> distinct ns"
    by (intro exI[of _ ns]) simp
  with BLDG_GF_regular route_main_hall p show ?thesis by (intro conjI)
qed

section \<open>Results on added hazards and ties\<close>



lemma setHaz_pos_floor [simp]:
  "pos (setHaz n k st) = pos st" "floor_v (setHaz n k st) = floor_v st"
  by (simp_all add: setHaz_def Let_def)
















end
